theory Spec2Isabelle
  imports Main
begin

section \<open>The program model read by the pass\<close>

text \<open>
  The pass \<open>reduce-pointer-level\<close> of \<open>src/ReducePointerLevel.cpp\<close> works on a Clang
  AST. The AST classes belong to Clang, not to the pass; the embedding keeps of them what
  the pass inspects. A pointer to a declaration object is its address.
\<close>

type_synonym decl_ptr = nat
type_synonym record_ptr = nat

text \<open>\<open>Decl::Kind\<close>, for the kinds of value declarations an expression can refer to.\<close>

datatype decl_kind =
    Decl_Var | Decl_Field | Decl_ParmVar | Decl_Function | Decl_CXXMethod
  | Decl_NonTypeTemplateParm | Decl_EnumConstant | Decl_IndirectField

text \<open>\<open>isa<DeclaratorDecl>\<close> and \<open>isa<FieldDecl>\<close> on the dynamic class.\<close>

fun isDeclaratorDecl :: "decl_kind \<Rightarrow> bool" where
  "isDeclaratorDecl Decl_EnumConstant = False"
| "isDeclaratorDecl Decl_IndirectField = False"
| "isDeclaratorDecl _ = True"

fun isFieldDecl :: "decl_kind \<Rightarrow> bool" where
  "isFieldDecl Decl_Field = True"
| "isFieldDecl _ = False"

fun isVarDecl :: "decl_kind \<Rightarrow> bool" where
  "isVarDecl Decl_Var = True"
| "isVarDecl Decl_ParmVar = True"
| "isVarDecl _ = False"

text \<open>Types, as far as the pass queries them.\<close>

datatype tag_kind = TTK_Struct | TTK_Union | TTK_Class

datatype ctype =
    BuiltinType
  | PointerType ctype
  | ReferenceType ctype
  | ArrayType ctype
  | RecordType tag_kind record_ptr
  | FunctionType

text \<open>\<open>Type::getPointeeType\<close>: the pointee, or the null \<open>QualType\<close> (\<open>None\<close>).\<close>

fun getPointeeType :: "ctype \<Rightarrow> ctype option" where
  "getPointeeType (PointerType T) = Some T"
| "getPointeeType (ReferenceType T) = Some T"
| "getPointeeType _ = None"

fun isPointerType :: "ctype \<Rightarrow> bool" where
  "isPointerType (PointerType T) = True"
| "isPointerType _ = False"

fun isArrayType :: "ctype \<Rightarrow> bool" where
  "isArrayType (ArrayType T) = True"
| "isArrayType _ = False"

fun isStructureType :: "ctype \<Rightarrow> bool" where
  "isStructureType (RecordType TTK_Struct R) = True"
| "isStructureType _ = False"

fun isUnionType :: "ctype \<Rightarrow> bool" where
  "isUnionType (RecordType TTK_Union R) = True"
| "isUnionType _ = False"

text \<open>\<open>Type::isAggregateType\<close> for C: arrays and records.\<close>

fun isAggregateType :: "ctype \<Rightarrow> bool" where
  "isAggregateType (ArrayType T) = True"
| "isAggregateType (RecordType K R) = True"
| "isAggregateType _ = False"

text \<open>
  A value declaration as an expression refers to it: its dynamic class and the result of
  \<open>dyn_cast<DeclaratorDecl>(D->getCanonicalDecl())\<close>, \<open>None\<close> for a null pointer.
\<close>

record value_decl =
  vd_kind :: decl_kind
  vd_canonical :: "decl_ptr option"

datatype unop =
    UO_PostInc | UO_PostDec | UO_PreInc | UO_PreDec | UO_AddrOf | UO_Deref
  | UO_Plus | UO_Minus | UO_Not | UO_LNot | UO_Real | UO_Imag | UO_Extension

datatype binop =
    BO_PtrMemD | BO_PtrMemI | BO_Mul | BO_Div | BO_Rem | BO_Add | BO_Sub
  | BO_Shl | BO_Shr | BO_LT | BO_GT | BO_LE | BO_GE | BO_EQ | BO_NE
  | BO_And | BO_Xor | BO_Or | BO_LAnd | BO_LOr
  | BO_Assign | BO_MulAssign | BO_DivAssign | BO_RemAssign | BO_AddAssign
  | BO_SubAssign | BO_ShlAssign | BO_ShrAssign | BO_AndAssign | BO_XorAssign
  | BO_OrAssign | BO_Comma

text \<open>\<open>BinaryOperator::isAssignmentOp\<close>: \<open>BO_Assign \<le> Opc \<le> BO_OrAssign\<close>.\<close>

fun isAssignmentOp :: "binop \<Rightarrow> bool" where
  "isAssignmentOp BO_Assign = True"
| "isAssignmentOp BO_MulAssign = True"
| "isAssignmentOp BO_DivAssign = True"
| "isAssignmentOp BO_RemAssign = True"
| "isAssignmentOp BO_AddAssign = True"
| "isAssignmentOp BO_SubAssign = True"
| "isAssignmentOp BO_ShlAssign = True"
| "isAssignmentOp BO_ShrAssign = True"
| "isAssignmentOp BO_AndAssign = True"
| "isAssignmentOp BO_XorAssign = True"
| "isAssignmentOp BO_OrAssign = True"
| "isAssignmentOp _ = False"

text \<open>\<open>BinaryOperator::isCompoundAssignmentOp\<close>: \<open>BO_Assign < Opc \<le> BO_OrAssign\<close>.\<close>

fun isCompoundAssignmentOp :: "binop \<Rightarrow> bool" where
  "isCompoundAssignmentOp BO_Assign = False"
| "isCompoundAssignmentOp Opc = isAssignmentOp Opc"

text \<open>Expressions. Every Clang expression carries its type, the first argument here.\<close>

datatype expr =
    DeclRefExpr ctype value_decl
  | MemberExpr ctype expr value_decl
  | UnaryOperator ctype unop expr
  | BinaryOperator ctype binop expr expr
  | ArraySubscriptExpr ctype expr expr
  | ParenExpr ctype expr
  | CastExpr ctype expr
  | CallExpr ctype expr "expr list"
  | ConditionalOperator ctype expr expr expr
  | IntegerLiteral ctype int

fun getType :: "expr \<Rightarrow> ctype" where
  "getType (DeclRefExpr T D) = T"
| "getType (MemberExpr T B D) = T"
| "getType (UnaryOperator T Opc E) = T"
| "getType (BinaryOperator T Opc L R) = T"
| "getType (ArraySubscriptExpr T B I) = T"
| "getType (ParenExpr T E) = T"
| "getType (CastExpr T E) = T"
| "getType (CallExpr T F As) = T"
| "getType (ConditionalOperator T C A B) = T"
| "getType (IntegerLiteral T N) = T"

text \<open>
  \<open>Expr::IgnoreParenCasts\<close> is Clang's: it strips parentheses and casts from the
  outside until another node is reached.
\<close>

fun IgnoreParenCasts :: "expr \<Rightarrow> expr" where
  "IgnoreParenCasts (ParenExpr T E) = IgnoreParenCasts E"
| "IgnoreParenCasts (CastExpr T E) = IgnoreParenCasts E"
| "IgnoreParenCasts E = E"

fun isDeclRefExpr :: "expr \<Rightarrow> bool" where
  "isDeclRefExpr (DeclRefExpr T D) = True"
| "isDeclRefExpr _ = False"

fun isMemberExpr :: "expr \<Rightarrow> bool" where
  "isMemberExpr (MemberExpr T B D) = True"
| "isMemberExpr _ = False"

fun isUnaryOperator :: "expr \<Rightarrow> bool" where
  "isUnaryOperator (UnaryOperator T Opc E) = True"
| "isUnaryOperator _ = False"

fun isArraySubscriptExpr :: "expr \<Rightarrow> bool" where
  "isArraySubscriptExpr (ArraySubscriptExpr T B I) = True"
| "isArraySubscriptExpr _ = False"

text \<open>
  A declarator declaration as the visitors see it: name, kind, declared type, the
  result of \<open>dyn_cast<DeclaratorDecl>(DD->getCanonicalDecl())\<close> and the initializer.
\<close>

record declarator_decl =
  dd_name :: string
  dd_kind :: decl_kind
  dd_type :: ctype
  dd_canonical :: "decl_ptr option"
  dd_init :: "expr option"

section \<open>The state of the pass\<close>

text \<open>
  Modelled from the spec: the enumeration of \<open>TransError\<close> is declared in a header that
  is not among the sources. The source assigns \<open>TransInternalError\<close> and
  \<open>TransMaxInstanceError\<close>; \<open>TransSuccess\<close> is the value of a run that reports no
  error (section 6 of the specification).
\<close>

datatype trans_error = TransSuccess | TransInternalError | TransMaxInstanceError

text \<open>
  Modelled from the spec: the macro \<open>TransAssert\<close> is defined in a header that is not
  among the sources. By section 7 of the specification a violated internal invariant
  aborts the run at once. A failed assertion is the error \<open>TransAssertFailure\<close> with
  the message of the assertion; it is the \<open>Inl\<close> of every result below, and a function
  passes on the error of a function it calls.
\<close>

datatype error = TransAssertFailure string

text \<open>
  The fields of \<open>ReducePointerLevel\<close> and those it inherits from \<open>Transformation\<close>,
  as the source uses them. A \<open>DeclSet\<close> only tested for membership is a set; the sets
  of \<open>AllPtrDecls\<close> are iterated, so they are lists without repetition, in iteration
  order. \<open>AllPtrDecls\<close> maps a level to such a set or to a null pointer (\<open>None\<close>,
  also for an absent key, which \<open>operator[]\<close> reads as null). The two counters are C
  integers; they count declarations of the program, and the model takes them as unbounded.
  \<open>TheRewriter\<close> is the list of text edits made so far, and
  \<open>SuppressAllDiagnostics\<close> the flag of the diagnostics engine.
\<close>

record state =
  AllPtrDecls :: "int \<Rightarrow> decl_ptr list option"
  VisitedDecls :: "decl_ptr set"
  ValidDecls :: "decl_ptr set"
  AddrTakenDecls :: "decl_ptr set"
  MaxIndirectLevel :: int
  TheDecl :: "decl_ptr option"
  TheRecordDecl :: "record_ptr option"
  ValidInstanceNum :: int
  TransformationCounter :: int
  QueryInstanceOnly :: bool
  TransError :: trans_error
  SuppressAllDiagnostics :: bool
  TheRewriter :: "(nat \<times> string) list"

section \<open>The collection visitor\<close>

text \<open>The loop of \<open>getPointerIndirectLevel\<close>, on the current \<open>QT\<close> and level.\<close>

function pointee_loop :: "ctype option \<Rightarrow> int \<Rightarrow> int" where
  "pointee_loop None IndirectLevel = IndirectLevel"
| "pointee_loop (Some T) IndirectLevel = pointee_loop (getPointeeType T) (IndirectLevel + 1)"
  by pat_completeness auto
termination
proof (relation "measure (\<lambda>(QT, n). case QT of None \<Rightarrow> 0 | Some T \<Rightarrow> Suc (size T))")
  show "wf (measure (\<lambda>(QT, n). case QT of None \<Rightarrow> 0 | Some T \<Rightarrow> Suc (size T)))"
    by simp
next
  fix T :: ctype and IndirectLevel :: int
  show "((getPointeeType T, IndirectLevel + 1), (Some T, IndirectLevel))
        \<in> measure (\<lambda>(QT, n). case QT of None \<Rightarrow> 0 | Some T \<Rightarrow> Suc (size T))"
    by (cases T) simp_all
qed

definition getPointerIndirectLevel :: "ctype \<Rightarrow> int" where
  "getPointerIndirectLevel Ty = pointee_loop (getPointeeType Ty) 0"

definition isVAArgField :: "declarator_decl \<Rightarrow> bool" where
  "isVAArgField DD =
     (dd_name DD = ''reg_save_area'' \<or> dd_name DD = ''overflow_arg_area'')"

text \<open>
  \<open>getArrayBaseElemType\<close>, on an array type. Its \<open>TransAssert\<close> tests a pointer
  that \<open>getTypePtr\<close> never returns null, so it is no branch here.
\<close>

fun getArrayBaseElemType :: "ctype \<Rightarrow> ctype" where
  "getArrayBaseElemType (ArrayType ArrayElemTy) =
     (if isArrayType ArrayElemTy then getArrayBaseElemType ArrayElemTy else ArrayElemTy)"
| "getArrayBaseElemType T = T"

text \<open>
  \<open>DeclSet::insert\<close> on an iterated set: nothing changes when the element is in the
  set, and a new element comes last. (A large \<open>SmallPtrSet\<close> iterates in the order of
  its hash table; the order inside one set is the one thing the model fixes beyond the
  source.)
\<close>

definition DeclSet_insert :: "decl_ptr \<Rightarrow> decl_ptr list \<Rightarrow> decl_ptr list" where
  "DeclSet_insert DD DDSet = (if DD \<in> set DDSet then DDSet else DDSet @ [DD])"

definition addOneDecl :: "decl_ptr \<Rightarrow> int \<Rightarrow> state \<Rightarrow> state" where
  "addOneDecl DD IndirectLevel s =
     (let DDSet = (case AllPtrDecls s IndirectLevel of None \<Rightarrow> [] | Some S \<Rightarrow> S)
      in s\<lparr>AllPtrDecls := (AllPtrDecls s)(IndirectLevel := Some (DeclSet_insert DD DDSet))\<rparr>)"

text \<open>\<open>VisitDeclaratorDecl\<close> of the collection visitor.\<close>

definition VisitDeclaratorDecl :: "declarator_decl \<Rightarrow> state \<Rightarrow> error + state" where
  "VisitDeclaratorDecl DD s =
     (if isVAArgField DD then Inr s
      else if \<not> (dd_kind DD = Decl_Field) \<and> \<not> (dd_kind DD = Decl_Var) then Inr s
      else
        let Ty = (if isArrayType (dd_type DD) then getArrayBaseElemType (dd_type DD)
                  else dd_type DD)
        in if \<not> isPointerType Ty then Inr s
           else case dd_canonical DD of
             None \<Rightarrow> Inl (TransAssertFailure ''Bad DeclaratorDecl!'')
           | Some CanonicalDD \<Rightarrow>
               if CanonicalDD \<in> VisitedDecls s then Inr s
               else
                 let s1 = s\<lparr>ValidDecls := insert CanonicalDD (ValidDecls s)\<rparr>;
                     s2 = s1\<lparr>VisitedDecls := insert CanonicalDD (VisitedDecls s1)\<rparr>;
                     IndirectLevel = getPointerIndirectLevel Ty
                 in if \<not> (IndirectLevel > 0)
                    then Inl (TransAssertFailure ''Bad indirect level!'')
                    else
                      let s3 = (if IndirectLevel > MaxIndirectLevel s2
                                then s2\<lparr>MaxIndirectLevel := IndirectLevel\<rparr> else s2)
                      in Inr (addOneDecl CanonicalDD IndirectLevel s3))"

text \<open>\<open>getCanonicalDeclaratorDecl\<close>, with its four assertions.\<close>

fun getCanonicalDeclaratorDecl :: "expr \<Rightarrow> error + decl_ptr" where
  "getCanonicalDeclaratorDecl (DeclRefExpr T ValueD) =
     (if \<not> isDeclaratorDecl (vd_kind ValueD) then Inl (TransAssertFailure ''Bad Declarator!'')
      else case vd_canonical ValueD of
        None \<Rightarrow> Inl (TransAssertFailure ''NULL CanonicalDD!'')
      | Some CanonicalDD \<Rightarrow> Inr CanonicalDD)"
| "getCanonicalDeclaratorDecl (MemberExpr T B OrigDecl) =
     (if \<not> isFieldDecl (vd_kind OrigDecl)
      then Inl (TransAssertFailure ''Unsupported C++ getMemberDecl!\<newline>'')
      else case vd_canonical OrigDecl of
        None \<Rightarrow> Inl (TransAssertFailure ''NULL CanonicalDD!'')
      | Some CanonicalDD \<Rightarrow> Inr CanonicalDD)"
| "getCanonicalDeclaratorDecl E = Inl (TransAssertFailure ''Bad Decl!'')"

text \<open>
  \<open>VisitUnaryOperator\<close> of the collection visitor, on the opcode and the operand of
  the node. \<open>getCanonicalDeclaratorDecl\<close> returns no null pointer, so the assertion
  \<open>NULL DD!\<close> after it cannot fail.
\<close>

definition VisitUnaryOperator :: "unop \<Rightarrow> expr \<Rightarrow> state \<Rightarrow> error + state" where
  "VisitUnaryOperator Opc SubExpr s =
     (if Opc \<noteq> UO_AddrOf then Inr s
      else
        let SubE = IgnoreParenCasts SubExpr
        in if \<not> isDeclRefExpr SubE \<and> \<not> isMemberExpr SubE then Inr s
           else case getCanonicalDeclaratorDecl SubE of
             Inl e \<Rightarrow> Inl e
           | Inr DD \<Rightarrow> Inr (s\<lparr>AddrTakenDecls := insert DD (AddrTakenDecls s)\<rparr>))"

lemma size_IgnoreParenCasts: "size (IgnoreParenCasts E) \<le> size E"
  by (induction E rule: IgnoreParenCasts.induct) simp_all

text \<open>The loop of \<open>ignoreSubscriptExprParenCasts\<close>, on the current \<open>NewE\<close>.\<close>

function subscript_loop :: "expr \<Rightarrow> expr" where
  "subscript_loop NewE =
     (case NewE of
        ArraySubscriptExpr T Base Idx \<Rightarrow> subscript_loop (IgnoreParenCasts Base)
      | _ \<Rightarrow> NewE)"
  by pat_completeness auto

termination
proof (relation "measure size")
  show "wf (measure (size :: expr \<Rightarrow> nat))"
    by simp
next
  fix NewE :: expr and T Base Idx
  assume "NewE = ArraySubscriptExpr T Base Idx"
  then show "(IgnoreParenCasts Base, NewE) \<in> measure size"
    using size_IgnoreParenCasts [of Base] by simp
qed

definition ignoreSubscriptExprParenCasts :: "expr \<Rightarrow> expr" where
  "ignoreSubscriptExprParenCasts E = subscript_loop (IgnoreParenCasts E)"

lemma size_subscript_loop: "size (subscript_loop E) \<le> size E"
proof (induction E rule: subscript_loop.induct)
  case (1 NewE)
  show ?case
  proof (cases NewE)
    case (ArraySubscriptExpr T Base Idx)
    have "size (subscript_loop (IgnoreParenCasts Base)) \<le> size (IgnoreParenCasts Base)"
      using "1.IH" ArraySubscriptExpr by simp
    also have "\<dots> \<le> size Base"
      by (rule size_IgnoreParenCasts)
    finally show ?thesis
      using ArraySubscriptExpr by simp
  qed simp_all
qed

lemma size_ignoreSubscriptExprParenCasts: "size (ignoreSubscriptExprParenCasts E) \<le> size E"
  unfolding ignoreSubscriptExprParenCasts_def
  using size_subscript_loop [of "IgnoreParenCasts E"] size_IgnoreParenCasts [of E]
  by simp

declare subscript_loop.simps [simp del]

text \<open>
  \<open>getRefDecl\<close>: a reference or a member access resolves; a dereference recurses into
  its operand; the two assertions end the run on every other expression.
\<close>

function getRefDecl :: "expr \<Rightarrow> error + decl_ptr" where
  "getRefDecl Exp =
     (case ignoreSubscriptExprParenCasts Exp of
        DeclRefExpr T D \<Rightarrow> getCanonicalDeclaratorDecl (DeclRefExpr T D)
      | MemberExpr T B D \<Rightarrow> getCanonicalDeclaratorDecl (MemberExpr T B D)
      | UnaryOperator T Opc SubE \<Rightarrow>
          if Opc \<noteq> UO_Deref then Inl (TransAssertFailure ''Non-Deref Opcode!'')
          else getRefDecl SubE
      | _ \<Rightarrow> Inl (TransAssertFailure ''Bad UnaryOperator!''))"
  by pat_completeness auto
termination
proof (relation "measure size")
  show "wf (measure (size :: expr \<Rightarrow> nat))"
    by simp
next
  fix Exp :: expr and T Opc SubE
  assume "ignoreSubscriptExprParenCasts Exp = UnaryOperator T Opc SubE"
  then have "size SubE < size (ignoreSubscriptExprParenCasts Exp)"
    by simp
  then show "(SubE, Exp) \<in> measure size"
    using size_ignoreSubscriptExprParenCasts [of Exp] by simp
qed

declare getRefDecl.simps [simp del]

text \<open>
  \<open>VisitBinaryOperator\<close> of the collection visitor, on the opcode and the two operands
  of the node. \<open>getRefDecl\<close> returns no null pointer, so the assertion \<open>NULL DD!\<close>
  after it cannot fail.
\<close>

definition VisitBinaryOperator :: "binop \<Rightarrow> expr \<Rightarrow> expr \<Rightarrow> state \<Rightarrow> error + state" where
  "VisitBinaryOperator Opc Lhs RhsExpr s =
     (if \<not> isAssignmentOp Opc \<and> \<not> isCompoundAssignmentOp Opc then Inr s
      else if \<not> isPointerType (getType Lhs) then Inr s
      else
        let Rhs = IgnoreParenCasts RhsExpr
        in if isDeclRefExpr Rhs \<or> isUnaryOperator Rhs \<or> isArraySubscriptExpr Rhs then Inr s
           else case getRefDecl Lhs of
             Inl e \<Rightarrow> Inl e
           | Inr DD \<Rightarrow> Inr (s\<lparr>ValidDecls := ValidDecls s - {DD}\<rparr>))"

section \<open>The traversal of the collection visitor\<close>

text \<open>
  \<open>RecursiveASTVisitor\<close> is Clang's. It calls the visitor of a node and then traverses
  the children of the node, left to right; every visitor of the pass returns \<open>true\<close>, so
  the traversal never stops early. A declaration node holds the nodes nested in it.
\<close>

datatype ast_node =
    DeclaratorDeclNode declarator_decl "ast_node list"
  | OtherDeclNode "ast_node list"
  | StmtNode expr

fun TraverseStmt :: "expr \<Rightarrow> state \<Rightarrow> error + state"
  and TraverseStmts :: "expr list \<Rightarrow> state \<Rightarrow> error + state" where
  "TraverseStmt (DeclRefExpr T D) s = Inr s"
| "TraverseStmt (MemberExpr T B D) s = TraverseStmt B s"
| "TraverseStmt (UnaryOperator T Opc E) s =
     (case VisitUnaryOperator Opc E s of Inl e \<Rightarrow> Inl e | Inr s1 \<Rightarrow> TraverseStmt E s1)"
| "TraverseStmt (BinaryOperator T Opc L R) s =
     (case VisitBinaryOperator Opc L R s of
        Inl e \<Rightarrow> Inl e
      | Inr s1 \<Rightarrow> (case TraverseStmt L s1 of Inl e \<Rightarrow> Inl e | Inr s2 \<Rightarrow> TraverseStmt R s2))"
| "TraverseStmt (ArraySubscriptExpr T B I) s =
     (case TraverseStmt B s of Inl e \<Rightarrow> Inl e | Inr s1 \<Rightarrow> TraverseStmt I s1)"
| "TraverseStmt (ParenExpr T E) s = TraverseStmt E s"
| "TraverseStmt (CastExpr T E) s = TraverseStmt E s"
| "TraverseStmt (CallExpr T F As) s =
     (case TraverseStmt F s of Inl e \<Rightarrow> Inl e | Inr s1 \<Rightarrow> TraverseStmts As s1)"
| "TraverseStmt (ConditionalOperator T C A B) s =
     (case TraverseStmt C s of
        Inl e \<Rightarrow> Inl e
      | Inr s1 \<Rightarrow> (case TraverseStmt A s1 of Inl e \<Rightarrow> Inl e | Inr s2 \<Rightarrow> TraverseStmt B s2))"
| "TraverseStmt (IntegerLiteral T N) s = Inr s"
| "TraverseStmts [] s = Inr s"
| "TraverseStmts (E # Es) s =
     (case TraverseStmt E s of Inl e \<Rightarrow> Inl e | Inr s1 \<Rightarrow> TraverseStmts Es s1)"

fun TraverseDecl :: "ast_node \<Rightarrow> state \<Rightarrow> error + state"
  and TraverseDecls :: "ast_node list \<Rightarrow> state \<Rightarrow> error + state" where
  "TraverseDecl (DeclaratorDeclNode DD Children) s =
     (case VisitDeclaratorDecl DD s of
        Inl e \<Rightarrow> Inl e
      | Inr s1 \<Rightarrow>
          (case (case dd_init DD of None \<Rightarrow> Inr s1 | Some Init \<Rightarrow> TraverseStmt Init s1) of
             Inl e \<Rightarrow> Inl e
           | Inr s2 \<Rightarrow> TraverseDecls Children s2))"
| "TraverseDecl (OtherDeclNode Children) s = TraverseDecls Children s"
| "TraverseDecl (StmtNode E) s = TraverseStmt E s"
| "TraverseDecls [] s = Inr s"
| "TraverseDecls (D # Ds) s =
     (case TraverseDecl D s of Inl e \<Rightarrow> Inl e | Inr s1 \<Rightarrow> TraverseDecls Ds s1)"

text \<open>\<open>HandleTopLevelDecl\<close>, on the declarations of one \<open>DeclGroupRef\<close>.\<close>

definition HandleTopLevelDecl :: "ast_node list \<Rightarrow> state \<Rightarrow> error + state" where
  "HandleTopLevelDecl D s = TraverseDecls D s"

section \<open>The selector\<close>

text \<open>
  The two statements both loops of \<open>doAnalysis\<close> run on a declaration they do not skip.
\<close>

definition count_instance :: "decl_ptr \<Rightarrow> state \<Rightarrow> state" where
  "count_instance I s =
     (let s1 = s\<lparr>ValidInstanceNum := ValidInstanceNum s + 1\<rparr>
      in if TransformationCounter s1 = ValidInstanceNum s1 then s1\<lparr>TheDecl := Some I\<rparr> else s1)"

text \<open>The loop over the set of \<open>MaxIndirectLevel\<close>.\<close>

fun max_level_loop :: "decl_ptr list \<Rightarrow> state \<Rightarrow> state" where
  "max_level_loop [] s = s"
| "max_level_loop (I # Decls) s =
     (if \<not> (I \<in> ValidDecls s) then max_level_loop Decls s
      else max_level_loop Decls (count_instance I s))"

text \<open>The inner loop over the set of a lower level.\<close>

fun lower_level_loop :: "decl_ptr list \<Rightarrow> state \<Rightarrow> state" where
  "lower_level_loop [] s = s"
| "lower_level_loop (I # Decls) s =
     (if \<not> (I \<in> ValidDecls s) \<or> I \<in> AddrTakenDecls s then lower_level_loop Decls s
      else lower_level_loop Decls (count_instance I s))"

text \<open>The outer loop \<open>for (Idx = MaxIndirectLevel - 1; Idx > 0; --Idx)\<close>, from \<open>Idx\<close> on.\<close>

function levels_loop :: "int \<Rightarrow> state \<Rightarrow> state" where
  "levels_loop Idx s =
     (if Idx > 0
      then (case AllPtrDecls s Idx of
              None \<Rightarrow> levels_loop (Idx - 1) s
            | Some Decls \<Rightarrow> levels_loop (Idx - 1) (lower_level_loop Decls s))
      else s)"
  by pat_completeness auto
termination
  by (relation "measure (\<lambda>(Idx, s). nat Idx)") auto

declare levels_loop.simps [simp del]

definition doAnalysis :: "state \<Rightarrow> state" where
  "doAnalysis s =
     (let s1 = (case AllPtrDecls s (MaxIndirectLevel s) of
                  None \<Rightarrow> s
                | Some Decls \<Rightarrow> max_level_loop Decls s)
      in levels_loop (MaxIndirectLevel s1 - 1) s1)"

section \<open>The rewrite visitor\<close>

text \<open>
  What \<open>HandleTranslationUnit\<close> reads of the \<open>ASTContext\<close>: the declarations of the
  translation unit, the dynamic class of the declaration object at an address, the
  parent record of a field, and the two error flags of the diagnostics engine.
\<close>

record ast_context =
  TranslationUnitDecl :: "ast_node list"
  DeclKindOf :: "decl_ptr \<Rightarrow> decl_kind"
  FieldParent :: "decl_ptr \<Rightarrow> record_ptr"
  hasErrorOccurred :: bool
  hasFatalErrorOccurred :: bool

text \<open>The four rewrite functions: the body of each is the comment \<open>TODO\<close>.\<close>

definition rewriteVarDecl :: "declarator_decl \<Rightarrow> state \<Rightarrow> state" where
  "rewriteVarDecl VD s = s"

definition rewriteFieldDecl :: "declarator_decl \<Rightarrow> state \<Rightarrow> state" where
  "rewriteFieldDecl FD s = s"

definition rewriteRecordInit :: "record_ptr \<Rightarrow> expr \<Rightarrow> state \<Rightarrow> state" where
  "rewriteRecordInit RD Init s = s"

definition rewriteArrayInit :: "record_ptr \<Rightarrow> expr \<Rightarrow> state \<Rightarrow> state" where
  "rewriteArrayInit RD Init s = s"

text \<open>
  The visitors of \<open>PointerLevelRewriteVisitor\<close>. They run after
  \<open>HandleTranslationUnit\<close> has asserted \<open>TheDecl\<close>; on a null \<open>TheDecl\<close> the model
  lets both casts of it fail.
\<close>

definition Rewrite_VisitFieldDecl :: "ast_context \<Rightarrow> declarator_decl \<Rightarrow> state \<Rightarrow> error + state" where
  "Rewrite_VisitFieldDecl Ctx FD s =
     (case TheDecl s of
        None \<Rightarrow> Inr s
      | Some TheD \<Rightarrow>
          if \<not> isFieldDecl (DeclKindOf Ctx TheD) then Inr s
          else if dd_canonical FD = Some TheD then Inr (rewriteFieldDecl FD s)
          else Inr s)"

definition Rewrite_VisitVarDecl :: "ast_context \<Rightarrow> declarator_decl \<Rightarrow> state \<Rightarrow> error + state" where
  "Rewrite_VisitVarDecl Ctx VD s =
     (if (case TheDecl s of
            None \<Rightarrow> False
          | Some TheD \<Rightarrow> isVarDecl (DeclKindOf Ctx TheD) \<and> dd_canonical VD = Some TheD)
      then Inr (rewriteVarDecl VD s)
      else case dd_init VD of
        None \<Rightarrow> Inr s
      | Some Init \<Rightarrow>
          let VDTy = dd_type VD
          in if \<not> isAggregateType VDTy then Inr s
             else if isArrayType VDTy then
               let ArrayElemTy = getArrayBaseElemType VDTy
               in if \<not> isStructureType ArrayElemTy \<and> \<not> isUnionType ArrayElemTy then Inr s
                  else (case ArrayElemTy of
                          RecordType K RD \<Rightarrow> Inr (rewriteArrayInit RD Init s)
                        | _ \<Rightarrow> Inl (TransAssertFailure ''Bad RDTy!''))
             else (case VDTy of
                     RecordType K RD \<Rightarrow> Inr (rewriteRecordInit RD Init s)
                   | _ \<Rightarrow> Inr s))"

definition Rewrite_VisitUnaryOperator :: "unop \<Rightarrow> expr \<Rightarrow> state \<Rightarrow> state" where
  "Rewrite_VisitUnaryOperator Opc SubExpr s = s"

definition Rewrite_VisitDeclRefExpr :: "value_decl \<Rightarrow> state \<Rightarrow> state" where
  "Rewrite_VisitDeclRefExpr D s = s"

definition Rewrite_VisitMemberExpr :: "expr \<Rightarrow> value_decl \<Rightarrow> state \<Rightarrow> state" where
  "Rewrite_VisitMemberExpr Base D s = s"

definition Rewrite_VisitArraySubscriptExpr :: "expr \<Rightarrow> expr \<Rightarrow> state \<Rightarrow> state" where
  "Rewrite_VisitArraySubscriptExpr Base Idx s = s"

text \<open>The traversal of the rewrite visitor, in the order of the collection visitor's.\<close>

fun Rewrite_TraverseStmt :: "expr \<Rightarrow> state \<Rightarrow> state"
  and Rewrite_TraverseStmts :: "expr list \<Rightarrow> state \<Rightarrow> state" where
  "Rewrite_TraverseStmt (DeclRefExpr T D) s = Rewrite_VisitDeclRefExpr D s"
| "Rewrite_TraverseStmt (MemberExpr T B D) s =
     Rewrite_TraverseStmt B (Rewrite_VisitMemberExpr B D s)"
| "Rewrite_TraverseStmt (UnaryOperator T Opc E) s =
     Rewrite_TraverseStmt E (Rewrite_VisitUnaryOperator Opc E s)"
| "Rewrite_TraverseStmt (BinaryOperator T Opc L R) s =
     Rewrite_TraverseStmt R (Rewrite_TraverseStmt L s)"
| "Rewrite_TraverseStmt (ArraySubscriptExpr T B I) s =
     Rewrite_TraverseStmt I (Rewrite_TraverseStmt B (Rewrite_VisitArraySubscriptExpr B I s))"
| "Rewrite_TraverseStmt (ParenExpr T E) s = Rewrite_TraverseStmt E s"
| "Rewrite_TraverseStmt (CastExpr T E) s = Rewrite_TraverseStmt E s"
| "Rewrite_TraverseStmt (CallExpr T F As) s =
     Rewrite_TraverseStmts As (Rewrite_TraverseStmt F s)"
| "Rewrite_TraverseStmt (ConditionalOperator T C A B) s =
     Rewrite_TraverseStmt B (Rewrite_TraverseStmt A (Rewrite_TraverseStmt C s))"
| "Rewrite_TraverseStmt (IntegerLiteral T N) s = s"
| "Rewrite_TraverseStmts [] s = s"
| "Rewrite_TraverseStmts (E # Es) s = Rewrite_TraverseStmts Es (Rewrite_TraverseStmt E s)"

fun Rewrite_TraverseDecl :: "ast_context \<Rightarrow> ast_node \<Rightarrow> state \<Rightarrow> error + state"
  and Rewrite_TraverseDecls :: "ast_context \<Rightarrow> ast_node list \<Rightarrow> state \<Rightarrow> error + state" where
  "Rewrite_TraverseDecl Ctx (DeclaratorDeclNode DD Children) s =
     (case (if isVarDecl (dd_kind DD) then Rewrite_VisitVarDecl Ctx DD s
            else if isFieldDecl (dd_kind DD) then Rewrite_VisitFieldDecl Ctx DD s
            else Inr s) of
        Inl e \<Rightarrow> Inl e
      | Inr s1 \<Rightarrow>
          Rewrite_TraverseDecls Ctx Children
            (case dd_init DD of None \<Rightarrow> s1 | Some Init \<Rightarrow> Rewrite_TraverseStmt Init s1))"
| "Rewrite_TraverseDecl Ctx (OtherDeclNode Children) s = Rewrite_TraverseDecls Ctx Children s"
| "Rewrite_TraverseDecl Ctx (StmtNode E) s = Inr (Rewrite_TraverseStmt E s)"
| "Rewrite_TraverseDecls Ctx [] s = Inr s"
| "Rewrite_TraverseDecls Ctx (D # Ds) s =
     (case Rewrite_TraverseDecl Ctx D s of
        Inl e \<Rightarrow> Inl e
      | Inr s1 \<Rightarrow> Rewrite_TraverseDecls Ctx Ds s1)"

section \<open>The entry points\<close>

definition setRecordDecl :: "ast_context \<Rightarrow> state \<Rightarrow> state" where
  "setRecordDecl Ctx s =
     (case TheDecl s of
        None \<Rightarrow> s
      | Some TheD \<Rightarrow>
          if \<not> isFieldDecl (DeclKindOf Ctx TheD) then s
          else s\<lparr>TheRecordDecl := Some (FieldParent Ctx TheD)\<rparr>)"

text \<open>
  \<open>HandleTranslationUnit\<close>. \<open>Initialize\<close> creates both visitors before any other
  callback runs, so the two assertions on them are no branch here.
\<close>

definition HandleTranslationUnit :: "ast_context \<Rightarrow> state \<Rightarrow> error + state" where
  "HandleTranslationUnit Ctx s =
     (let s1 = doAnalysis s
      in if QueryInstanceOnly s1 then Inr s1
         else if TransformationCounter s1 > ValidInstanceNum s1
         then Inr (s1\<lparr>TransError := TransMaxInstanceError\<rparr>)
         else
           let s2 = s1\<lparr>SuppressAllDiagnostics := False\<rparr>
           in case TheDecl s2 of
             None \<Rightarrow> Inl (TransAssertFailure ''NULL TheDecl!'')
           | Some TheD \<Rightarrow>
               (case Rewrite_TraverseDecls Ctx (TranslationUnitDecl Ctx) (setRecordDecl Ctx s2) of
                  Inl e \<Rightarrow> Inl e
                | Inr s3 \<Rightarrow>
                    if hasErrorOccurred Ctx \<or> hasFatalErrorOccurred Ctx
                    then Inr (s3\<lparr>TransError := TransInternalError\<rparr>)
                    else Inr s3))"

text \<open>
  Modelled from the spec: the constructor of \<open>ReducePointerLevel\<close> and the fields of
  \<open>Transformation\<close> are declared in headers that are not among the sources. Before
  collection every set is empty, no level has been seen, nothing is selected, the running
  count is zero, no error is reported and diagnostics are suppressed. The driver gives the
  instance index and the query flag.
\<close>

definition initial_state :: "int \<Rightarrow> bool \<Rightarrow> state" where
  "initial_state Counter Query =
     \<lparr>AllPtrDecls = (\<lambda>l. None), VisitedDecls = {}, ValidDecls = {}, AddrTakenDecls = {},
      MaxIndirectLevel = 0, TheDecl = None, TheRecordDecl = None, ValidInstanceNum = 0,
      TransformationCounter = Counter, QueryInstanceOnly = Query, TransError = TransSuccess,
      SuppressAllDiagnostics = True, TheRewriter = []\<rparr>"

text \<open>
  The parser calls \<open>HandleTopLevelDecl\<close> once for every group of top-level declarations,
  in source order, and \<open>HandleTranslationUnit\<close> at the end.
\<close>

fun HandleTopLevelDecls :: "ast_node list list \<Rightarrow> state \<Rightarrow> error + state" where
  "HandleTopLevelDecls [] s = Inr s"
| "HandleTopLevelDecls (D # Ds) s =
     (case HandleTopLevelDecl D s of Inl e \<Rightarrow> Inl e | Inr s1 \<Rightarrow> HandleTopLevelDecls Ds s1)"

definition run_pass :: "ast_context \<Rightarrow> ast_node list list \<Rightarrow> int \<Rightarrow> bool \<Rightarrow> error + state" where
  "run_pass Ctx Groups Counter Query =
     (case HandleTopLevelDecls Groups (initial_state Counter Query) of
        Inl e \<Rightarrow> Inl e
      | Inr s \<Rightarrow> HandleTranslationUnit Ctx s)"

text \<open>What the driver reads of a run: a field of the final state, if the run did not abort.\<close>

definition result_of :: "(state \<Rightarrow> 'a) \<Rightarrow> error + state \<Rightarrow> 'a option" where
  "result_of f r = (case r of Inl e \<Rightarrow> None | Inr s \<Rightarrow> Some (f s))"

section \<open>The selection policy in the words of the specification\<close>

text \<open>
  The registry set of a level, empty for a level without one; the declarations of the
  two tiers in the order the policy counts them; and the declaration a 1-based index
  picks from a list of counted declarations, after \<open>n\<close> have been counted before it.
\<close>

definition decls_at :: "state \<Rightarrow> int \<Rightarrow> decl_ptr list" where
  "decls_at s l = (case AllPtrDecls s l of None \<Rightarrow> [] | Some Decls \<Rightarrow> Decls)"

definition tier1 :: "state \<Rightarrow> decl_ptr list" where
  "tier1 s = filter (\<lambda>d. d \<in> ValidDecls s) (decls_at s (MaxIndirectLevel s))"

definition tier2_level :: "state \<Rightarrow> int \<Rightarrow> decl_ptr list" where
  "tier2_level s l =
     filter (\<lambda>d. d \<in> ValidDecls s \<and> d \<notin> AddrTakenDecls s) (decls_at s l)"

definition tier2 :: "state \<Rightarrow> decl_ptr list" where
  "tier2 s = concat (map (tier2_level s) (rev [1..MaxIndirectLevel s - 1]))"

definition eligible_order :: "state \<Rightarrow> decl_ptr list" where
  "eligible_order s = tier1 s @ tier2 s"

definition pick :: "int \<Rightarrow> int \<Rightarrow> decl_ptr list \<Rightarrow> decl_ptr option \<Rightarrow> decl_ptr option" where
  "pick k n ds old =
     (if n < k \<and> k \<le> n + int (length ds) then Some (ds ! nat (k - n - 1)) else old)"

text \<open>
  Registration of a declaration at a level: what \<open>VisitDeclaratorDecl\<close> does to the
  state when it does not skip.
\<close>

definition register :: "decl_ptr \<Rightarrow> int \<Rightarrow> state \<Rightarrow> state" where
  "register d l s =
     s\<lparr>AllPtrDecls := (AllPtrDecls s)(l := Some (DeclSet_insert d (decls_at s l))),
       VisitedDecls := insert d (VisitedDecls s),
       ValidDecls := insert d (ValidDecls s),
       MaxIndirectLevel := max l (MaxIndirectLevel s)\<rparr>"

text \<open>
  The invariants of the registry: every registry set belongs to a level between 1 and
  \<open>MaxIndirectLevel\<close> and holds no declaration twice; the visited declarations are the
  registered ones; no declaration is registered at two levels; and the valid set holds
  registered declarations only.
\<close>

definition registry_inv :: "state \<Rightarrow> bool" where
  "registry_inv s \<longleftrightarrow>
     (\<forall>l Decls. AllPtrDecls s l = Some Decls \<longrightarrow> 0 < l \<and> l \<le> MaxIndirectLevel s \<and> distinct Decls)
   \<and> (\<forall>d. d \<in> VisitedDecls s \<longleftrightarrow> (\<exists>l. d \<in> set (decls_at s l)))
   \<and> (\<forall>l l' d. d \<in> set (decls_at s l) \<longrightarrow> d \<in> set (decls_at s l') \<longrightarrow> l = l')
   \<and> ValidDecls s \<subseteq> VisitedDecls s"

text \<open>
  A declaration survives the filtering when it is valid and at \<open>MaxIndirectLevel\<close>, or
  valid, not address-taken and at a level from 1 to \<open>MaxIndirectLevel - 1\<close>.
\<close>

definition eligible :: "state \<Rightarrow> decl_ptr \<Rightarrow> bool" where
  "eligible s d \<longleftrightarrow>
     (d \<in> set (decls_at s (MaxIndirectLevel s)) \<and> d \<in> ValidDecls s)
   \<or> (\<exists>l \<in> {1..MaxIndirectLevel s - 1}.
         d \<in> set (decls_at s l) \<and> d \<in> ValidDecls s \<and> d \<notin> AddrTakenDecls s)"

text \<open>
  One call of a collection visitor; \<open>Q\<close> restricts the declarations visited. The
  declarators of a tree are the declarations \<open>VisitDeclaratorDecl\<close> is called on.
\<close>

definition visit_step :: "(declarator_decl \<Rightarrow> bool) \<Rightarrow> state \<Rightarrow> state \<Rightarrow> bool" where
  "visit_step Q s s' \<longleftrightarrow>
     (\<exists>Opc E. VisitUnaryOperator Opc E s = Inr s')
   \<or> (\<exists>Opc L R. VisitBinaryOperator Opc L R s = Inr s')
   \<or> (\<exists>DD. Q DD \<and> VisitDeclaratorDecl DD s = Inr s')"

fun declarators :: "ast_node \<Rightarrow> declarator_decl list"
  and declarators_list :: "ast_node list \<Rightarrow> declarator_decl list" where
  "declarators (DeclaratorDeclNode DD Children) = DD # declarators_list Children"
| "declarators (OtherDeclNode Children) = declarators_list Children"
| "declarators (StmtNode E) = []"
| "declarators_list [] = []"
| "declarators_list (D # Ds) = declarators D @ declarators_list Ds"

text \<open>
  Modelled from the spec: the driver's request, an instance index and the query flag
  (section 6), is stored in the two fields of \<open>Transformation\<close>, whose setters are not
  among the sources.
\<close>

definition with_request :: "int \<Rightarrow> bool \<Rightarrow> state \<Rightarrow> state" where
  "with_request k q s = s\<lparr>TransformationCounter := k, QueryInstanceOnly := q\<rparr>"

text \<open>
  The type the collector classifies a declaration by: its declared type, an array type
  reduced to its base element type (section 3 of the specification). It is the \<open>Ty\<close>
  that \<open>VisitDeclaratorDecl\<close> tests and measures.
\<close>

definition declared_base_type :: "declarator_decl \<Rightarrow> ctype" where
  "declared_base_type DD =
     (if isArrayType (dd_type DD) then getArrayBaseElemType (dd_type DD) else dd_type DD)"

text \<open>
  The left-hand sides the assignment analysis resolves, in the words of the claim: under
  parentheses, casts and array subscripts, a declaration reference, a member access, or
  a dereference of such an expression.
\<close>

fun resolvable_lhs :: "expr \<Rightarrow> bool" where
  "resolvable_lhs (ParenExpr T E) = resolvable_lhs E"
| "resolvable_lhs (CastExpr T E) = resolvable_lhs E"
| "resolvable_lhs (ArraySubscriptExpr T B I) = resolvable_lhs B"
| "resolvable_lhs (DeclRefExpr T D) = True"
| "resolvable_lhs (MemberExpr T B D) = True"
| "resolvable_lhs (UnaryOperator T Opc E) = (Opc = UO_Deref \<and> resolvable_lhs E)"
| "resolvable_lhs E = False"

text \<open>
  The right-hand sides the assignment analysis takes as safe: under parentheses and
  casts, a declaration reference, a unary operator or an array subscript.
\<close>

definition safe_rhs :: "expr \<Rightarrow> bool" where
  "safe_rhs E \<longleftrightarrow>
     isDeclRefExpr (IgnoreParenCasts E) \<or> isUnaryOperator (IgnoreParenCasts E)
   \<or> isArraySubscriptExpr (IgnoreParenCasts E)"

section \<open>Example programs\<close>

text \<open>
  Inputs for the closed theorems below. \<open>example_p\<close> is \<open>int **p\<close> at address 1,
  \<open>example_q\<close> is \<open>int *q\<close> at address 2 and \<open>example_r\<close> is \<open>int *r\<close> at address
  3. \<open>example_address_taken\<close> declares the three variables and takes the addresses
  of \<open>p\<close> and \<open>r\<close>. \<open>example_x\<close> is \<open>int x\<close> at address 7, and
  \<open>example_mixed\<close> declares \<open>p\<close>, \<open>x\<close>, \<open>q\<close> and then \<open>p\<close> again.
\<close>

definition example_p :: declarator_decl where
  "example_p = \<lparr>dd_name = ''p'', dd_kind = Decl_Var,
     dd_type = PointerType (PointerType BuiltinType), dd_canonical = Some 1, dd_init = None\<rparr>"

definition example_q :: declarator_decl where
  "example_q = \<lparr>dd_name = ''q'', dd_kind = Decl_Var,
     dd_type = PointerType BuiltinType, dd_canonical = Some 2, dd_init = None\<rparr>"

definition example_r :: declarator_decl where
  "example_r = \<lparr>dd_name = ''r'', dd_kind = Decl_Var,
     dd_type = PointerType BuiltinType, dd_canonical = Some 3, dd_init = None\<rparr>"

definition example_ref :: "declarator_decl \<Rightarrow> expr" where
  "example_ref DD = DeclRefExpr (dd_type DD) \<lparr>vd_kind = dd_kind DD, vd_canonical = dd_canonical DD\<rparr>"

definition example_addr_of :: "expr \<Rightarrow> expr" where
  "example_addr_of E = UnaryOperator (PointerType (getType E)) UO_AddrOf E"

definition example_address_taken :: "ast_node list list" where
  "example_address_taken =
     [[DeclaratorDeclNode example_p []], [DeclaratorDeclNode example_q []],
      [DeclaratorDeclNode example_r []],
      [StmtNode (example_addr_of (example_ref example_p)),
       StmtNode (example_addr_of (example_ref example_r))]]"

definition example_x :: declarator_decl where
  "example_x = \<lparr>dd_name = ''x'', dd_kind = Decl_Var,
     dd_type = BuiltinType, dd_canonical = Some 7, dd_init = None\<rparr>"

definition example_mixed :: "ast_node list list" where
  "example_mixed =
     [[DeclaratorDeclNode example_p []], [DeclaratorDeclNode example_x []],
      [DeclaratorDeclNode example_q []], [DeclaratorDeclNode example_p []]]"

text \<open>
  \<open>example_call\<close> is the call \<open>f()\<close> of a function that returns \<open>int **\<close>;
  \<open>example_deref\<close> dereferences an expression and \<open>example_assign\<close> assigns to one.
\<close>

definition example_f :: value_decl where
  "example_f = \<lparr>vd_kind = Decl_Function, vd_canonical = Some 4\<rparr>"

definition example_call :: expr where
  "example_call = CallExpr (PointerType (PointerType BuiltinType))
     (CastExpr (PointerType FunctionType) (DeclRefExpr FunctionType example_f)) []"

definition example_assign :: "expr \<Rightarrow> expr \<Rightarrow> expr" where
  "example_assign L R = BinaryOperator (getType L) BO_Assign L R"

definition example_deref :: "expr \<Rightarrow> expr" where
  "example_deref E =
     UnaryOperator (case getType E of PointerType T \<Rightarrow> T | T \<Rightarrow> T) UO_Deref (CastExpr (getType E) E)"

text \<open>
  \<open>example_va_arg\<close> is \<open>int *reg_save_area\<close> at address 5, a variable of the user's.
  \<open>example_assigned\<close> declares \<open>p\<close> and \<open>q\<close> and assigns \<open>p = f()\<close>.
\<close>

definition example_va_arg :: declarator_decl where
  "example_va_arg = \<lparr>dd_name = ''reg_save_area'', dd_kind = Decl_Var,
     dd_type = PointerType BuiltinType, dd_canonical = Some 5, dd_init = None\<rparr>"

definition example_assigned :: "ast_node list list" where
  "example_assigned =
     [[DeclaratorDeclNode example_p []], [DeclaratorDeclNode example_q []],
      [StmtNode (example_assign (example_ref example_p) example_call)]]"

definition example_va_program :: "ast_node list list" where
  "example_va_program = [[DeclaratorDeclNode example_va_arg []], [DeclaratorDeclNode example_q []]]"

text \<open>
  \<open>example_scenario\<close> declares \<open>int **p\<close> and \<open>int *q\<close> and evaluates \<open>**p\<close>.
  \<open>example_ctx\<close> is the context of a program of variables, parsed without an error.
\<close>

definition example_scenario :: "ast_node list list" where
  "example_scenario =
     [[DeclaratorDeclNode example_p []], [DeclaratorDeclNode example_q []],
      [StmtNode (example_deref (example_deref (example_ref example_p)))]]"

definition example_ctx :: "ast_node list list \<Rightarrow> ast_context" where
  "example_ctx Groups =
     \<lparr>TranslationUnitDecl = concat Groups, DeclKindOf = (\<lambda>D. Decl_Var), FieldParent = (\<lambda>D. 0),
      hasErrorOccurred = False, hasFatalErrorOccurred = False\<rparr>"

section \<open>The selector computes the two tiers\<close>

lemma pick_Nil: "pick k n [] old = old"
  by (auto simp add: pick_def)

lemma pick_Cons:
  "pick k n (d # ds) old = pick k (n + 1) ds (if k = n + 1 then Some d else old)"
proof (cases "k = n + 1")
  case True
  then show ?thesis by (simp add: pick_def)
next
  case False
  show ?thesis
  proof (cases "n < k \<and> k \<le> n + int (length (d # ds))")
    case True
    with False have "nat (k - n - 1) = Suc (nat (k - (n + 1) - 1))" by linarith
    with True False show ?thesis by (simp add: pick_def)
  next
    case False
    then show ?thesis by (auto simp add: pick_def)
  qed
qed

lemma pick_append:
  "pick k (n + int (length as)) bs (pick k n as old) = pick k n (as @ bs) old"
proof (induction as arbitrary: n old)
  case Nil
  then show ?case by (simp add: pick_Nil)
next
  case (Cons a as)
  have len: "n + int (length (a # as)) = (n + 1) + int (length as)"
    by simp
  have "pick k (n + int (length (a # as))) bs (pick k n (a # as) old)
      = pick k ((n + 1) + int (length as)) bs (pick k (n + 1) as (if k = n + 1 then Some a else old))"
    unfolding len pick_Cons ..
  also have "\<dots> = pick k (n + 1) (as @ bs) (if k = n + 1 then Some a else old)"
    by (rule Cons.IH)
  also have "\<dots> = pick k n ((a # as) @ bs) old"
    by (simp add: pick_Cons)
  finally show ?case .
qed

lemma count_instance_eq:
  "count_instance I s =
     s\<lparr>TheDecl := (if TransformationCounter s = ValidInstanceNum s + 1 then Some I else TheDecl s),
        ValidInstanceNum := ValidInstanceNum s + 1\<rparr>"
  by (simp add: count_instance_def Let_def)

lemma max_level_loop_eq:
  "max_level_loop Decls s =
     s\<lparr>TheDecl := pick (TransformationCounter s) (ValidInstanceNum s)
                    (filter (\<lambda>d. d \<in> ValidDecls s) Decls) (TheDecl s),
        ValidInstanceNum := ValidInstanceNum s
                    + int (length (filter (\<lambda>d. d \<in> ValidDecls s) Decls))\<rparr>"
proof (induction Decls arbitrary: s)
  case Nil
  then show ?case by (simp add: pick_Nil)
next
  case (Cons I Decls)
  show ?case
  proof (cases "I \<in> ValidDecls s")
    case False
    then show ?thesis using Cons.IH [of s] by simp
  next
    case True
    then show ?thesis
      using Cons.IH [of "count_instance I s"]
      by (simp add: count_instance_eq pick_Cons)
  qed
qed

lemma lower_level_loop_eq:
  "lower_level_loop Decls s =
     s\<lparr>TheDecl := pick (TransformationCounter s) (ValidInstanceNum s)
                    (filter (\<lambda>d. d \<in> ValidDecls s \<and> d \<notin> AddrTakenDecls s) Decls) (TheDecl s),
        ValidInstanceNum := ValidInstanceNum s
                    + int (length (filter (\<lambda>d. d \<in> ValidDecls s \<and> d \<notin> AddrTakenDecls s) Decls))\<rparr>"
proof (induction Decls arbitrary: s)
  case Nil
  then show ?case by (simp add: pick_Nil)
next
  case (Cons I Decls)
  show ?case
  proof (cases "I \<in> ValidDecls s \<and> I \<notin> AddrTakenDecls s")
    case False
    then show ?thesis using Cons.IH [of s] by auto
  next
    case True
    then show ?thesis
      using Cons.IH [of "count_instance I s"]
      by (simp add: count_instance_eq pick_Cons)
  qed
qed

lemma tier2_level_update [simp]:
  "tier2_level (s\<lparr>TheDecl := d, ValidInstanceNum := n\<rparr>) = tier2_level s"
  by (rule ext) (simp add: tier2_level_def decls_at_def)

lemma rev_upto_pos: "0 < Idx \<Longrightarrow> rev [1..Idx] = Idx # rev [1..Idx - 1]"
  by (simp add: upto_rec2)

lemma levels_loop_eq:
  "levels_loop Idx s =
     s\<lparr>TheDecl := pick (TransformationCounter s) (ValidInstanceNum s)
                    (concat (map (tier2_level s) (rev [1..Idx]))) (TheDecl s),
        ValidInstanceNum := ValidInstanceNum s
                    + int (length (concat (map (tier2_level s) (rev [1..Idx]))))\<rparr>"
proof (induction Idx s rule: levels_loop.induct)
  case (1 Idx s)
  show ?case
  proof (cases "Idx > 0")
    case False
    then show ?thesis
      by (subst levels_loop.simps) (simp add: pick_Nil)
  next
    case pos: True
    show ?thesis
    proof (cases "AllPtrDecls s Idx")
      case None
      then have empty: "tier2_level s Idx = []"
        by (simp add: tier2_level_def decls_at_def)
      have "levels_loop Idx s = levels_loop (Idx - 1) s"
        using pos None by (subst levels_loop.simps) simp
      then show ?thesis
        using "1.IH"(1) [OF pos None] pos empty by (simp add: rev_upto_pos)
    next
      case (Some Decls)
      then have level: "tier2_level s Idx
          = filter (\<lambda>d. d \<in> ValidDecls s \<and> d \<notin> AddrTakenDecls s) Decls"
        by (simp add: tier2_level_def decls_at_def)
      have "levels_loop Idx s = levels_loop (Idx - 1) (lower_level_loop Decls s)"
        using pos Some by (subst levels_loop.simps) simp
      then show ?thesis
        using "1.IH"(2) [OF pos Some] pos
        by (simp add: lower_level_loop_eq level [symmetric] rev_upto_pos pick_append add.assoc)
    qed
  qed
qed

lemma doAnalysis_eq:
  "doAnalysis s =
     s\<lparr>TheDecl := pick (TransformationCounter s) (ValidInstanceNum s) (eligible_order s) (TheDecl s),
        ValidInstanceNum := ValidInstanceNum s + int (length (eligible_order s))\<rparr>"
proof -
  let ?k = "TransformationCounter s"
  let ?n = "ValidInstanceNum s"
  have step: "(case AllPtrDecls s (MaxIndirectLevel s) of None \<Rightarrow> s
               | Some Decls \<Rightarrow> max_level_loop Decls s)
        = s\<lparr>TheDecl := pick ?k ?n (tier1 s) (TheDecl s),
             ValidInstanceNum := ?n + int (length (tier1 s))\<rparr>"
    by (cases "AllPtrDecls s (MaxIndirectLevel s)")
      (simp_all add: tier1_def decls_at_def pick_Nil max_level_loop_eq)
  show ?thesis
    unfolding doAnalysis_def step Let_def
    by (simp add: levels_loop_eq eligible_order_def tier2_def pick_append add.assoc)
qed

section \<open>What one visit does, and what a traversal is made of\<close>

lemma VisitDeclaratorDecl_cases:
  assumes "VisitDeclaratorDecl DD s = Inr s'"
  shows "s' = s \<or> (\<exists>d l. dd_canonical DD = Some d \<and> d \<notin> VisitedDecls s \<and> 0 < l
                        \<and> \<not> isVAArgField DD \<and> s' = register d l s)"
  using assms
  by (auto simp add: VisitDeclaratorDecl_def Let_def register_def addOneDecl_def decls_at_def max_def
      split: if_splits option.splits)

lemma VisitUnaryOperator_cases:
  assumes "VisitUnaryOperator Opc E s = Inr s'"
  shows "s' = s \<or> (\<exists>d. s' = s\<lparr>AddrTakenDecls := insert d (AddrTakenDecls s)\<rparr>)"
  using assms
  by (auto simp add: VisitUnaryOperator_def Let_def split: if_splits sum.splits)

lemma VisitBinaryOperator_cases:
  assumes "VisitBinaryOperator Opc L R s = Inr s'"
  shows "s' = s \<or> (\<exists>d. s' = s\<lparr>ValidDecls := ValidDecls s - {d}\<rparr>)"
  using assms
  by (auto simp add: VisitBinaryOperator_def Let_def split: if_splits sum.splits)

lemma seqE:
  assumes "(case m of Inl e \<Rightarrow> Inl e | Inr s1 \<Rightarrow> f s1) = Inr s'"
  obtains s1 where "m = Inr s1" and "f s1 = Inr s'"
  using assms by (cases m) simp_all

lemma TraverseStmt_steps:
  shows "TraverseStmt E s = Inr s' \<Longrightarrow> (visit_step Q)\<^sup>*\<^sup>* s s'"
    and "TraverseStmts Es s = Inr s' \<Longrightarrow> (visit_step Q)\<^sup>*\<^sup>* s s'"
proof (induction E s and Es s arbitrary: s' and s' rule: TraverseStmt_TraverseStmts.induct)
  case (1 T D s)
  then show ?case by simp
next
  case (2 T B D s)
  then show ?case by simp
next
  case (3 T Opc E s)
  from "3.prems" obtain s1 where
    v: "VisitUnaryOperator Opc E s = Inr s1" and t: "TraverseStmt E s1 = Inr s'"
    by (auto elim: seqE)
  have "visit_step Q s s1" using v by (auto simp add: visit_step_def)
  then show ?case using "3.IH" [OF v t] by (rule converse_rtranclp_into_rtranclp)
next
  case (4 T Opc L R s)
  from "4.prems" obtain s1 s2 where
    v: "VisitBinaryOperator Opc L R s = Inr s1" and l: "TraverseStmt L s1 = Inr s2"
    and r: "TraverseStmt R s2 = Inr s'"
    by (auto elim!: seqE)
  have "visit_step Q s s1" using v by (auto simp add: visit_step_def)
  moreover have "(visit_step Q)\<^sup>*\<^sup>* s1 s2" using "4.IH"(1) [OF v l] .
  moreover have "(visit_step Q)\<^sup>*\<^sup>* s2 s'" using "4.IH"(2) [OF v l r] .
  ultimately show ?case by (meson converse_rtranclp_into_rtranclp rtranclp_trans)
next
  case (5 T B I s)
  from "5.prems" obtain s1 where
    b: "TraverseStmt B s = Inr s1" and i: "TraverseStmt I s1 = Inr s'"
    by (auto elim!: seqE)
  show ?case using "5.IH"(1) [OF b] "5.IH"(2) [OF b i] by (rule rtranclp_trans)
next
  case (6 T E s)
  then show ?case by simp
next
  case (7 T E s)
  then show ?case by simp
next
  case (8 T F As s)
  from "8.prems" obtain s1 where
    f: "TraverseStmt F s = Inr s1" and a: "TraverseStmts As s1 = Inr s'"
    by (auto elim!: seqE)
  show ?case using "8.IH"(1) [OF f] "8.IH"(2) [OF f a] by (rule rtranclp_trans)
next
  case (9 T C A B s)
  from "9.prems" obtain s1 s2 where
    c: "TraverseStmt C s = Inr s1" and a: "TraverseStmt A s1 = Inr s2"
    and b: "TraverseStmt B s2 = Inr s'"
    by (auto elim!: seqE)
  have "(visit_step Q)\<^sup>*\<^sup>* s s2"
    using "9.IH"(1) [OF c] "9.IH"(2) [OF c a] by (rule rtranclp_trans)
  then show ?case using "9.IH"(3) [OF c a b] by (rule rtranclp_trans)
next
  case (10 T N s)
  then show ?case by simp
next
  case (11 s)
  then show ?case by simp
next
  case (12 E Es s)
  from "12.prems" obtain s1 where
    e: "TraverseStmt E s = Inr s1" and r: "TraverseStmts Es s1 = Inr s'"
    by (auto elim!: seqE)
  show ?case using "12.IH"(1) [OF e] "12.IH"(2) [OF e r] by (rule rtranclp_trans)
qed

lemma TraverseDecl_steps:
  shows "list_all Q (declarators N) \<Longrightarrow> TraverseDecl N s = Inr s'
           \<Longrightarrow> (visit_step Q)\<^sup>*\<^sup>* s s'"
    and "list_all Q (declarators_list Ns) \<Longrightarrow> TraverseDecls Ns s = Inr s'
           \<Longrightarrow> (visit_step Q)\<^sup>*\<^sup>* s s'"
proof (induction N s and Ns s arbitrary: s' and s' rule: TraverseDecl_TraverseDecls.induct)
  case (1 DD Children s)
  from "1.prems"(2) obtain s1 s2 where
    v: "VisitDeclaratorDecl DD s = Inr s1"
    and i: "(case dd_init DD of None \<Rightarrow> Inr s1 | Some Init \<Rightarrow> TraverseStmt Init s1) = Inr s2"
    and c: "TraverseDecls Children s2 = Inr s'"
    by (auto elim!: seqE)
  have "visit_step Q s s1"
    using v "1.prems"(1) by (auto simp add: visit_step_def)
  moreover have "(visit_step Q)\<^sup>*\<^sup>* s1 s2"
    using i TraverseStmt_steps(1) [of _ s1 s2 Q] by (cases "dd_init DD") auto
  moreover have "(visit_step Q)\<^sup>*\<^sup>* s2 s'"
    using "1.IH" [OF v i _ c] "1.prems"(1) by simp
  ultimately show ?case by (meson converse_rtranclp_into_rtranclp rtranclp_trans)
next
  case (2 Children s)
  then show ?case by simp
next
  case (3 E s)
  then show ?case using TraverseStmt_steps(1) [of E s s' Q] by simp
next
  case (4 s)
  then show ?case by simp
next
  case (5 D Ds s)
  from "5.prems"(2) obtain s1 where
    d: "TraverseDecl D s = Inr s1" and r: "TraverseDecls Ds s1 = Inr s'"
    by (auto elim!: seqE)
  have "(visit_step Q)\<^sup>*\<^sup>* s s1" using "5.IH"(1) [OF _ d] "5.prems"(1) by simp
  moreover have "(visit_step Q)\<^sup>*\<^sup>* s1 s'" using "5.IH"(2) [OF d _ r] "5.prems"(1) by simp
  ultimately show ?case by (rule rtranclp_trans)
qed

lemma declarators_list_append:
  "declarators_list (Ns @ Ms) = declarators_list Ns @ declarators_list Ms"
  by (induction Ns) simp_all

lemma HandleTopLevelDecls_steps:
  "list_all Q (declarators_list (concat Groups)) \<Longrightarrow> HandleTopLevelDecls Groups s = Inr s'
     \<Longrightarrow> (visit_step Q)\<^sup>*\<^sup>* s s'"
proof (induction Groups arbitrary: s)
  case Nil
  then show ?case by simp
next
  case (Cons G Groups)
  from Cons.prems(2) obtain s1 where
    g: "TraverseDecls G s = Inr s1" and r: "HandleTopLevelDecls Groups s1 = Inr s'"
    by (auto simp add: HandleTopLevelDecl_def elim!: seqE)
  have "(visit_step Q)\<^sup>*\<^sup>* s s1"
    using TraverseDecl_steps(2) [OF _ g, of Q] Cons.prems(1)
    by (simp add: declarators_list_append)
  moreover have "(visit_step Q)\<^sup>*\<^sup>* s1 s'"
    using Cons.IH [OF _ r] Cons.prems(1) by (simp add: declarators_list_append)
  ultimately show ?case by (rule rtranclp_trans)
qed

section \<open>The registry invariants hold after collection\<close>

lemma register_fields [simp]:
  "AllPtrDecls (register d l s) = (AllPtrDecls s)(l := Some (DeclSet_insert d (decls_at s l)))"
  "VisitedDecls (register d l s) = insert d (VisitedDecls s)"
  "ValidDecls (register d l s) = insert d (ValidDecls s)"
  "AddrTakenDecls (register d l s) = AddrTakenDecls s"
  "MaxIndirectLevel (register d l s) = max l (MaxIndirectLevel s)"
  "TheDecl (register d l s) = TheDecl s"
  "TheRecordDecl (register d l s) = TheRecordDecl s"
  "ValidInstanceNum (register d l s) = ValidInstanceNum s"
  "TransformationCounter (register d l s) = TransformationCounter s"
  "QueryInstanceOnly (register d l s) = QueryInstanceOnly s"
  "TransError (register d l s) = TransError s"
  "SuppressAllDiagnostics (register d l s) = SuppressAllDiagnostics s"
  "TheRewriter (register d l s) = TheRewriter s"
  by (simp_all add: register_def)

lemma decls_at_register:
  "decls_at (register d l s) l' = (if l' = l then DeclSet_insert d (decls_at s l) else decls_at s l')"
  by (simp add: decls_at_def)

lemma decls_at_frame [simp]:
  "decls_at (s\<lparr>AddrTakenDecls := A\<rparr>) = decls_at s"
  "decls_at (s\<lparr>ValidDecls := V\<rparr>) = decls_at s"
  "decls_at (s\<lparr>TransformationCounter := k\<rparr>) = decls_at s"
  by (rule ext, simp add: decls_at_def)+

lemma registry_inv_register:
  assumes inv: "registry_inv s" and new: "d \<notin> VisitedDecls s" and pos: "0 < l"
  shows "registry_inv (register d l s)"
proof -
  from inv have lv: "\<And>l Decls. AllPtrDecls s l = Some Decls
      \<Longrightarrow> 0 < l \<and> l \<le> MaxIndirectLevel s \<and> distinct Decls"
    and vis: "\<And>d. d \<in> VisitedDecls s \<longleftrightarrow> (\<exists>l. d \<in> set (decls_at s l))"
    and uniq: "\<And>l l' d. d \<in> set (decls_at s l) \<Longrightarrow> d \<in> set (decls_at s l') \<Longrightarrow> l = l'"
    and val: "ValidDecls s \<subseteq> VisitedDecls s"
    unfolding registry_inv_def by blast+
  have fresh: "d \<notin> set (decls_at s l')" for l'
    using new vis by blast
  have ins: "DeclSet_insert d (decls_at s l) = decls_at s l @ [d]"
    using fresh by (simp add: DeclSet_insert_def)
  have dist: "distinct (decls_at s l)"
    using lv [of l] by (cases "AllPtrDecls s l") (simp_all add: decls_at_def)
  have at: "decls_at (register d l s) l' = (if l' = l then decls_at s l @ [d] else decls_at s l')" for l'
    by (simp add: decls_at_register ins)
  have c1: "\<forall>l' Decls. AllPtrDecls (register d l s) l' = Some Decls
      \<longrightarrow> 0 < l' \<and> l' \<le> MaxIndirectLevel (register d l s) \<and> distinct Decls"
  proof (intro allI impI)
    fix l' Decls
    assume a: "AllPtrDecls (register d l s) l' = Some Decls"
    show "0 < l' \<and> l' \<le> MaxIndirectLevel (register d l s) \<and> distinct Decls"
    proof (cases "l' = l")
      case True
      with a have "Decls = decls_at s l @ [d]" by (simp add: ins)
      with True pos dist fresh show ?thesis by simp
    next
      case False
      with a have "AllPtrDecls s l' = Some Decls" by simp
      from lv [OF this] show ?thesis by auto
    qed
  qed
  have c2: "\<forall>d'. d' \<in> VisitedDecls (register d l s) \<longleftrightarrow> (\<exists>l'. d' \<in> set (decls_at (register d l s) l'))"
  proof
    fix d'
    show "d' \<in> VisitedDecls (register d l s) \<longleftrightarrow> (\<exists>l'. d' \<in> set (decls_at (register d l s) l'))"
    proof
      assume "d' \<in> VisitedDecls (register d l s)"
      then consider "d' = d" | "d' \<in> VisitedDecls s" by auto
      then show "\<exists>l'. d' \<in> set (decls_at (register d l s) l')"
      proof cases
        case 1
        then have "d' \<in> set (decls_at (register d l s) l)" by (simp add: at)
        then show ?thesis ..
      next
        case 2
        then obtain l' where "d' \<in> set (decls_at s l')" using vis by blast
        then have "d' \<in> set (decls_at (register d l s) l')" by (auto simp add: at)
        then show ?thesis ..
      qed
    next
      assume "\<exists>l'. d' \<in> set (decls_at (register d l s) l')"
      then obtain l' where "d' \<in> set (decls_at (register d l s) l')" ..
      then have "d' = d \<or> d' \<in> set (decls_at s l')"
        by (auto simp add: at split: if_splits)
      then show "d' \<in> VisitedDecls (register d l s)"
        using vis by auto
    qed
  qed
  have c3: "\<forall>l1 l2 d'. d' \<in> set (decls_at (register d l s) l1)
      \<longrightarrow> d' \<in> set (decls_at (register d l s) l2) \<longrightarrow> l1 = l2"
  proof (intro allI impI)
    fix l1 l2 d'
    assume a1: "d' \<in> set (decls_at (register d l s) l1)"
      and a2: "d' \<in> set (decls_at (register d l s) l2)"
    show "l1 = l2"
    proof (cases "d' = d")
      case True
      from a1 True fresh have "l1 = l" by (auto simp add: at split: if_splits)
      moreover from a2 True fresh have "l2 = l" by (auto simp add: at split: if_splits)
      ultimately show ?thesis by simp
    next
      case False
      from a1 False have "d' \<in> set (decls_at s l1)" by (auto simp add: at split: if_splits)
      moreover from a2 False have "d' \<in> set (decls_at s l2)" by (auto simp add: at split: if_splits)
      ultimately show ?thesis by (rule uniq)
    qed
  qed
  have c4: "ValidDecls (register d l s) \<subseteq> VisitedDecls (register d l s)"
    using val by auto
  show ?thesis
    unfolding registry_inv_def using c1 c2 c3 c4 by blast
qed

lemma registry_inv_AddrTaken:
  "registry_inv s \<Longrightarrow> registry_inv (s\<lparr>AddrTakenDecls := A\<rparr>)"
  by (simp add: registry_inv_def)

lemma registry_inv_erase:
  "registry_inv s \<Longrightarrow> registry_inv (s\<lparr>ValidDecls := ValidDecls s - {d}\<rparr>)"
  by (simp add: registry_inv_def) blast

lemma registry_inv_step:
  assumes "registry_inv s" and "visit_step Q s s'"
  shows "registry_inv s'"
proof -
  from assms(2) consider
      (u) Opc E where "VisitUnaryOperator Opc E s = Inr s'"
    | (b) Opc L R where "VisitBinaryOperator Opc L R s = Inr s'"
    | (d) DD where "VisitDeclaratorDecl DD s = Inr s'"
    unfolding visit_step_def by blast
  then show ?thesis
  proof cases
    case u
    from VisitUnaryOperator_cases [OF u] show ?thesis
      using assms(1) registry_inv_AddrTaken by auto
  next
    case b
    from VisitBinaryOperator_cases [OF b] show ?thesis
      using assms(1) registry_inv_erase by auto
  next
    case d
    from VisitDeclaratorDecl_cases [OF d] show ?thesis
      using assms(1) registry_inv_register by auto
  qed
qed

lemma registry_inv_steps:
  "(visit_step Q)\<^sup>*\<^sup>* s s' \<Longrightarrow> registry_inv s \<Longrightarrow> registry_inv s'"
  by (induction rule: rtranclp_induct) (auto intro: registry_inv_step)

lemma registry_inv_initial: "registry_inv (initial_state k q)"
  by (simp add: registry_inv_def initial_state_def decls_at_def)

lemma all_declarators: "list_all (\<lambda>DD. True) Ds"
  by (simp add: list_all_iff)

lemma registry_inv_collected:
  assumes "HandleTopLevelDecls Groups (initial_state k q) = Inr s"
  shows "registry_inv s"
  using HandleTopLevelDecls_steps [OF all_declarators assms] registry_inv_initial
  by (rule registry_inv_steps)

section \<open>Every eligible declaration is counted once\<close>

lemma pick_in_set: "pick k n ds old = Some d \<Longrightarrow> d \<in> set ds \<or> old = Some d"
  by (auto simp add: pick_def split: if_splits)

lemma pick_index: "i < length ds \<Longrightarrow> pick (n + int i + 1) n ds old = Some (ds ! i)"
  by (simp add: pick_def)

lemma pick_outside: "\<not> (n < k \<and> k \<le> n + int (length ds)) \<Longrightarrow> pick k n ds old = old"
  by (auto simp add: pick_def)

lemma tier2_level_frame [simp]:
  "tier2_level (s\<lparr>TransformationCounter := k\<rparr>) = tier2_level s"
  "tier2_level (s\<lparr>TheDecl := D\<rparr>) = tier2_level s"
  "tier2_level (s\<lparr>QueryInstanceOnly := q\<rparr>) = tier2_level s"
  by (rule ext, simp add: tier2_level_def decls_at_def)+

lemma eligible_order_frame [simp]:
  "eligible_order (s\<lparr>TransformationCounter := k\<rparr>) = eligible_order s"
  "eligible_order (s\<lparr>TheDecl := D\<rparr>) = eligible_order s"
  "eligible_order (s\<lparr>QueryInstanceOnly := q\<rparr>) = eligible_order s"
  by (simp_all add: eligible_order_def tier1_def tier2_def decls_at_def)

lemma set_tier2:
  "set (tier2 s) = (\<Union>l \<in> {1..MaxIndirectLevel s - 1}. set (tier2_level s l))"
  by (simp add: tier2_def)

lemma set_eligible_order: "set (eligible_order s) = {d. eligible s d}"
  by (auto simp add: eligible_order_def set_tier2 tier1_def tier2_level_def eligible_def)

lemma distinct_decls_at: "registry_inv s \<Longrightarrow> distinct (decls_at s l)"
  by (cases "AllPtrDecls s l") (auto simp add: registry_inv_def decls_at_def)

lemma distinct_concat_map:
  assumes "distinct ls"
    and "\<And>l. l \<in> set ls \<Longrightarrow> distinct (f l)"
    and "\<And>l l'. l \<in> set ls \<Longrightarrow> l' \<in> set ls \<Longrightarrow> l \<noteq> l' \<Longrightarrow> set (f l) \<inter> set (f l') = {}"
  shows "distinct (concat (map f ls))"
  using assms
proof (induction ls)
  case Nil
  then show ?case by simp
next
  case (Cons a ls)
  have "distinct (concat (map f ls))"
    using Cons by simp
  moreover have "distinct (f a)"
    using Cons.prems(2) by simp
  moreover have "set (f a) \<inter> set (concat (map f ls)) = {}"
  proof -
    have "set (f a) \<inter> set (f l) = {}" if "l \<in> set ls" for l
      using Cons.prems(1) Cons.prems(3) [of a l] that by auto
    then show ?thesis by auto
  qed
  ultimately show ?case by simp
qed

lemma distinct_eligible_order:
  assumes inv: "registry_inv s"
  shows "distinct (eligible_order s)"
proof -
  have uniq: "\<And>l l' d. d \<in> set (decls_at s l) \<Longrightarrow> d \<in> set (decls_at s l') \<Longrightarrow> l = l'"
    using inv unfolding registry_inv_def by blast
  have d1: "distinct (tier1 s)"
    using distinct_decls_at [OF inv] by (simp add: tier1_def)
  have d2: "distinct (tier2 s)"
    unfolding tier2_def
  proof (rule distinct_concat_map)
    show "distinct (rev [1..MaxIndirectLevel s - 1])" by simp
  next
    fix l
    show "distinct (tier2_level s l)"
      using distinct_decls_at [OF inv] by (simp add: tier2_level_def)
  next
    fix l l' :: int
    assume "l \<noteq> l'"
    then show "set (tier2_level s l) \<inter> set (tier2_level s l') = {}"
      using uniq by (auto simp add: tier2_level_def)
  qed
  have "set (tier1 s) \<inter> set (tier2 s) = {}"
  proof -
    have "d \<notin> set (tier2 s)" if "d \<in> set (tier1 s)" for d
    proof
      assume "d \<in> set (tier2 s)"
      then obtain l where l: "1 \<le> l" "l \<le> MaxIndirectLevel s - 1" and "d \<in> set (tier2_level s l)"
        by (auto simp add: set_tier2)
      then have "d \<in> set (decls_at s l)" by (simp add: tier2_level_def)
      moreover have "d \<in> set (decls_at s (MaxIndirectLevel s))"
        using that by (simp add: tier1_def)
      ultimately have "l = MaxIndirectLevel s" by (rule uniq)
      with l show False by simp
    qed
    then show ?thesis by auto
  qed
  with d1 d2 show ?thesis by (simp add: eligible_order_def)
qed

lemma pick_bij:
  assumes "distinct ds"
  shows "bij_betw (\<lambda>k. pick k 0 ds None) {1..int (length ds)} (Some ` set ds)"
  unfolding bij_betw_def
proof
  show "inj_on (\<lambda>k. pick k 0 ds None) {1..int (length ds)}"
  proof (rule inj_onI)
    fix k k' :: int
    assume k: "k \<in> {1..int (length ds)}" and k': "k' \<in> {1..int (length ds)}"
      and eq: "pick k 0 ds None = pick k' 0 ds None"
    from k have pk: "pick k 0 ds None = Some (ds ! nat (k - 1))" by (simp add: pick_def)
    from k' have pk': "pick k' 0 ds None = Some (ds ! nat (k' - 1))" by (simp add: pick_def)
    from k k' have "nat (k - 1) < length ds" "nat (k' - 1) < length ds" by auto
    with eq pk pk' assms have "nat (k - 1) = nat (k' - 1)"
      by (simp add: nth_eq_iff_index_eq)
    with k k' show "k = k'" by auto
  qed
next
  show "(\<lambda>k. pick k 0 ds None) ` {1..int (length ds)} = Some ` set ds"
  proof (intro set_eqI iffI)
    fix x
    assume "x \<in> (\<lambda>k. pick k 0 ds None) ` {1..int (length ds)}"
    then obtain k where k: "1 \<le> k" "k \<le> int (length ds)" and x: "x = pick k 0 ds None"
      by auto
    from k have "nat (k - 1) < length ds" by auto
    then have "ds ! nat (k - 1) \<in> set ds" by (rule nth_mem)
    with k x show "x \<in> Some ` set ds" by (simp add: pick_def)
  next
    fix x
    assume "x \<in> Some ` set ds"
    then obtain d where d: "d \<in> set ds" and x: "x = Some d" by auto
    from d obtain i where i: "i < length ds" and di: "ds ! i = d"
      by (auto simp add: in_set_conv_nth)
    have "pick (int i + 1) 0 ds None = Some d"
      using pick_index [OF i, of 0 None] di by simp
    moreover have "int i + 1 \<in> {1..int (length ds)}" using i by auto
    ultimately show "x \<in> (\<lambda>k. pick k 0 ds None) ` {1..int (length ds)}"
      using x by (metis (mono_tags, lifting) image_iff)
  qed
qed

section \<open>The collector leaves the fields of the driver alone\<close>

lemma visit_step_driver_fields:
  assumes "visit_step Q s s'"
  shows "TheDecl s' = TheDecl s \<and> TheRecordDecl s' = TheRecordDecl s
       \<and> ValidInstanceNum s' = ValidInstanceNum s
       \<and> TransformationCounter s' = TransformationCounter s
       \<and> QueryInstanceOnly s' = QueryInstanceOnly s \<and> TransError s' = TransError s
       \<and> SuppressAllDiagnostics s' = SuppressAllDiagnostics s \<and> TheRewriter s' = TheRewriter s"
proof -
  from assms consider
      (u) Opc E where "VisitUnaryOperator Opc E s = Inr s'"
    | (b) Opc L R where "VisitBinaryOperator Opc L R s = Inr s'"
    | (d) DD where "VisitDeclaratorDecl DD s = Inr s'"
    unfolding visit_step_def by blast
  then show ?thesis
  proof cases
    case u
    from VisitUnaryOperator_cases [OF u] show ?thesis by auto
  next
    case b
    from VisitBinaryOperator_cases [OF b] show ?thesis by auto
  next
    case d
    from VisitDeclaratorDecl_cases [OF d] show ?thesis by auto
  qed
qed

lemma visit_steps_driver_fields:
  assumes "(visit_step Q)\<^sup>*\<^sup>* s s'"
  shows "TheDecl s' = TheDecl s \<and> TheRecordDecl s' = TheRecordDecl s
       \<and> ValidInstanceNum s' = ValidInstanceNum s
       \<and> TransformationCounter s' = TransformationCounter s
       \<and> QueryInstanceOnly s' = QueryInstanceOnly s \<and> TransError s' = TransError s
       \<and> SuppressAllDiagnostics s' = SuppressAllDiagnostics s \<and> TheRewriter s' = TheRewriter s"
  using assms
proof (induction rule: rtranclp_induct)
  case base
  then show ?case by simp
next
  case (step y z)
  from visit_step_driver_fields [OF step.hyps(2)] step.IH show ?case by simp
qed

lemma collected_driver_fields:
  assumes "HandleTopLevelDecls Groups (initial_state k q) = Inr s"
  shows "TheDecl s = None \<and> TheRecordDecl s = None \<and> ValidInstanceNum s = 0
       \<and> TransformationCounter s = k \<and> QueryInstanceOnly s = q \<and> TransError s = TransSuccess
       \<and> SuppressAllDiagnostics s = True \<and> TheRewriter s = []"
  using visit_steps_driver_fields [OF HandleTopLevelDecls_steps [OF all_declarators assms]]
  by (simp add: initial_state_def)

lemma VisitDeclaratorDecl_request:
  "VisitDeclaratorDecl DD (with_request k q s) = map_sum (\<lambda>e. e) (with_request k q) (VisitDeclaratorDecl DD s)"
  by (simp add: VisitDeclaratorDecl_def with_request_def addOneDecl_def Let_def split: option.splits)

lemma VisitUnaryOperator_request:
  "VisitUnaryOperator Opc E (with_request k q s) = map_sum (\<lambda>e. e) (with_request k q) (VisitUnaryOperator Opc E s)"
  by (simp add: VisitUnaryOperator_def with_request_def Let_def split: sum.splits)

lemma VisitBinaryOperator_request:
  "VisitBinaryOperator Opc L R (with_request k q s) = map_sum (\<lambda>e. e) (with_request k q) (VisitBinaryOperator Opc L R s)"
  by (simp add: VisitBinaryOperator_def with_request_def Let_def split: sum.splits)

lemma seq_request:
  assumes "m' = map_sum (\<lambda>e. e) g m" and "\<And>s1. m = Inr s1 \<Longrightarrow> f (g s1) = map_sum (\<lambda>e. e) g (f s1)"
  shows "(case m' of Inl e \<Rightarrow> Inl e | Inr s1 \<Rightarrow> f s1)
       = map_sum (\<lambda>e. e) g (case m of Inl e \<Rightarrow> Inl e | Inr s1 \<Rightarrow> f s1)"
  using assms by (cases m) simp_all

lemma TraverseStmt_request:
  shows "TraverseStmt E (with_request k q s) = map_sum (\<lambda>e. e) (with_request k q) (TraverseStmt E s)"
    and "TraverseStmts Es (with_request k q s) = map_sum (\<lambda>e. e) (with_request k q) (TraverseStmts Es s)"
proof (induction E s and Es s rule: TraverseStmt_TraverseStmts.induct)
  case (3 T Opc E s)
  show ?case
    unfolding TraverseStmt.simps
    by (rule seq_request [OF VisitUnaryOperator_request]) (rule "3.IH")
next
  case (4 T Opc L R s)
  show ?case
    unfolding TraverseStmt.simps
  proof (rule seq_request [OF VisitBinaryOperator_request])
    fix s1
    assume v: "VisitBinaryOperator Opc L R s = Inr s1"
    show "(case TraverseStmt L (with_request k q s1) of Inl e \<Rightarrow> Inl e | Inr s2 \<Rightarrow> TraverseStmt R s2)
        = map_sum (\<lambda>e. e) (with_request k q)
            (case TraverseStmt L s1 of Inl e \<Rightarrow> Inl e | Inr s2 \<Rightarrow> TraverseStmt R s2)"
      by (rule seq_request [OF "4.IH"(1) [OF v]]) (rule "4.IH"(2) [OF v])
  qed
next
  case (5 T B I s)
  show ?case
    unfolding TraverseStmt.simps
    by (rule seq_request [OF "5.IH"(1)]) (rule "5.IH"(2))
next
  case (8 T F As s)
  show ?case
    unfolding TraverseStmt.simps
    by (rule seq_request [OF "8.IH"(1)]) (rule "8.IH"(2))
next
  case (9 T C A B s)
  show ?case
    unfolding TraverseStmt.simps
  proof (rule seq_request [OF "9.IH"(1)])
    fix s1
    assume c: "TraverseStmt C s = Inr s1"
    show "(case TraverseStmt A (with_request k q s1) of Inl e \<Rightarrow> Inl e | Inr s2 \<Rightarrow> TraverseStmt B s2)
        = map_sum (\<lambda>e. e) (with_request k q)
            (case TraverseStmt A s1 of Inl e \<Rightarrow> Inl e | Inr s2 \<Rightarrow> TraverseStmt B s2)"
      by (rule seq_request [OF "9.IH"(2) [OF c]]) (rule "9.IH"(3) [OF c])
  qed
next
  case (12 E Es s)
  show ?case
    unfolding TraverseStmts.simps
    by (rule seq_request [OF "12.IH"(1)]) (rule "12.IH"(2))
qed simp_all

lemma TraverseDecl_request:
  shows "TraverseDecl N (with_request k q s) = map_sum (\<lambda>e. e) (with_request k q) (TraverseDecl N s)"
    and "TraverseDecls Ns (with_request k q s) = map_sum (\<lambda>e. e) (with_request k q) (TraverseDecls Ns s)"
proof (induction N s and Ns s rule: TraverseDecl_TraverseDecls.induct)
  case (1 DD Children s)
  show ?case
    unfolding TraverseDecl.simps
  proof (rule seq_request [OF VisitDeclaratorDecl_request])
    fix s1
    assume v: "VisitDeclaratorDecl DD s = Inr s1"
    have init: "(case dd_init DD of None \<Rightarrow> Inr (with_request k q s1)
                 | Some Init \<Rightarrow> TraverseStmt Init (with_request k q s1))
        = map_sum (\<lambda>e. e) (with_request k q)
            (case dd_init DD of None \<Rightarrow> Inr s1 | Some Init \<Rightarrow> TraverseStmt Init s1)"
      by (cases "dd_init DD") (simp_all add: TraverseStmt_request)
    show "(case (case dd_init DD of None \<Rightarrow> Inr (with_request k q s1)
                 | Some Init \<Rightarrow> TraverseStmt Init (with_request k q s1)) of
             Inl e \<Rightarrow> Inl e | Inr s2 \<Rightarrow> TraverseDecls Children s2)
        = map_sum (\<lambda>e. e) (with_request k q)
            (case (case dd_init DD of None \<Rightarrow> Inr s1 | Some Init \<Rightarrow> TraverseStmt Init s1) of
               Inl e \<Rightarrow> Inl e | Inr s2 \<Rightarrow> TraverseDecls Children s2)"
      by (rule seq_request [OF init]) (rule "1.IH" [OF v])
  qed
next
  case (3 E s)
  show ?case by (simp add: TraverseStmt_request)
next
  case (5 D Ds s)
  show ?case
    unfolding TraverseDecls.simps
    by (rule seq_request [OF "5.IH"(1)]) (rule "5.IH"(2))
qed simp_all

lemma HandleTopLevelDecls_request:
  "HandleTopLevelDecls Groups (with_request k q s)
     = map_sum (\<lambda>e. e) (with_request k q) (HandleTopLevelDecls Groups s)"
proof (induction Groups arbitrary: s)
  case Nil
  then show ?case by simp
next
  case (Cons G Groups)
  show ?case
    unfolding HandleTopLevelDecls.simps HandleTopLevelDecl_def
    by (rule seq_request [OF TraverseDecl_request(2)]) (rule Cons.IH)
qed

lemma initial_state_request: "initial_state k q = with_request k q (initial_state k0 q0)"
  by (simp add: initial_state_def with_request_def)

lemma collected_request:
  assumes "HandleTopLevelDecls Groups (initial_state k0 q0) = Inr s"
  shows "HandleTopLevelDecls Groups (initial_state k q) = Inr (with_request k q s)"
  using assms
  by (simp add: initial_state_request [of k q k0 q0] HandleTopLevelDecls_request)

section \<open>Resolution of a left-hand side\<close>

lemma resolvable_IgnoreParenCasts: "resolvable_lhs (IgnoreParenCasts E) = resolvable_lhs E"
  by (induction E rule: IgnoreParenCasts.induct) simp_all

lemma resolvable_subscript_loop: "resolvable_lhs (subscript_loop E) = resolvable_lhs E"
proof (induction E rule: subscript_loop.induct)
  case (1 NewE)
  show ?case
  proof (cases NewE)
    case (ArraySubscriptExpr T Base Idx)
    then show ?thesis
      using "1.IH" [OF ArraySubscriptExpr]
      by (subst subscript_loop.simps) (simp add: resolvable_IgnoreParenCasts)
  qed (simp_all add: subscript_loop.simps)
qed

lemma resolvable_ignoreSubscriptExprParenCasts:
  "resolvable_lhs (ignoreSubscriptExprParenCasts E) = resolvable_lhs E"
  by (simp add: ignoreSubscriptExprParenCasts_def resolvable_subscript_loop
      resolvable_IgnoreParenCasts)

lemma getRefDecl_resolvable: "getRefDecl Exp = Inr DD \<Longrightarrow> resolvable_lhs Exp"
proof (induction Exp rule: getRefDecl.induct)
  case (1 Exp)
  show ?case
  proof (cases "ignoreSubscriptExprParenCasts Exp")
    case (UnaryOperator T Opc SubE)
    with "1.prems" have deref: "Opc = UO_Deref" and sub: "getRefDecl SubE = Inr DD"
      by (auto simp add: getRefDecl.simps [of Exp] split: if_splits)
    from "1.IH" [OF UnaryOperator _ sub] deref have "resolvable_lhs SubE"
      by simp
    with deref have "resolvable_lhs (ignoreSubscriptExprParenCasts Exp)"
      by (simp add: UnaryOperator)
    then show ?thesis
      by (simp add: resolvable_ignoreSubscriptExprParenCasts)
  next
    case (DeclRefExpr T D)
    then have "resolvable_lhs (ignoreSubscriptExprParenCasts Exp)" by simp
    then show ?thesis by (simp add: resolvable_ignoreSubscriptExprParenCasts)
  next
    case (MemberExpr T B D)
    then have "resolvable_lhs (ignoreSubscriptExprParenCasts Exp)" by simp
    then show ?thesis by (simp add: resolvable_ignoreSubscriptExprParenCasts)
  qed (use "1.prems" in \<open>simp_all add: getRefDecl.simps [of Exp]\<close>)
qed

lemma error_cases: "(\<exists>msg. m = Inl (TransAssertFailure msg)) \<or> (\<exists>x. m = Inr x)"
proof (cases m)
  case (Inl e)
  then show ?thesis by (cases e) simp
next
  case (Inr x)
  then show ?thesis by simp
qed

lemma VisitDeclaratorDecl_visited:
  "dd_canonical DD = Some d \<Longrightarrow> d \<in> VisitedDecls s \<Longrightarrow> VisitDeclaratorDecl DD s = Inr s"
  by (simp add: VisitDeclaratorDecl_def Let_def)

section \<open>Visits of operators and disqualified declarations\<close>



lemma not_eligible_invalid: "d \<notin> ValidDecls s \<Longrightarrow> \<not> eligible s d"
  by (auto simp add: eligible_def)

lemma not_selected:
  assumes "\<not> eligible s d" and "TheDecl s \<noteq> Some d"
  shows "TheDecl (doAnalysis s) \<noteq> Some d"
proof
  assume "TheDecl (doAnalysis s) = Some d"
  then have "pick (TransformationCounter s) (ValidInstanceNum s) (eligible_order s) (TheDecl s) = Some d"
    by (simp add: doAnalysis_eq)
  from pick_in_set [OF this] assms show False
    by (simp add: set_eligible_order)
qed

lemma disqualified_step:
  assumes "visit_step Q s s'" and "d \<in> VisitedDecls s" and "d \<notin> ValidDecls s"
  shows "d \<in> VisitedDecls s' \<and> d \<notin> ValidDecls s'"
proof -
  from assms(1) consider
      (u) Opc E where "VisitUnaryOperator Opc E s = Inr s'"
    | (b) Opc L R where "VisitBinaryOperator Opc L R s = Inr s'"
    | (d) DD where "VisitDeclaratorDecl DD s = Inr s'"
    unfolding visit_step_def by blast
  then show ?thesis
  proof cases
    case u
    from VisitUnaryOperator_cases [OF u] assms(2,3) show ?thesis by auto
  next
    case b
    from VisitBinaryOperator_cases [OF b] assms(2,3) show ?thesis by auto
  next
    case d
    from VisitDeclaratorDecl_cases [OF d] assms(2,3) show ?thesis by auto
  qed
qed

lemma disqualified_steps:
  assumes "(visit_step Q)\<^sup>*\<^sup>* s s'" and "d \<in> VisitedDecls s" and "d \<notin> ValidDecls s"
  shows "d \<in> VisitedDecls s' \<and> d \<notin> ValidDecls s'"
  using assms
proof (induction rule: rtranclp_induct)
  case base
  then show ?case by simp
next
  case (step y z)
  then show ?case using disqualified_step [OF step.hyps(2)] by blast
qed

lemma va_arg_step:
  assumes "visit_step (\<lambda>DD. dd_canonical DD = Some d \<longrightarrow> isVAArgField DD) s s'"
    and "d \<notin> VisitedDecls s"
  shows "d \<notin> VisitedDecls s'"
proof -
  from assms(1) consider
      (u) Opc E where "VisitUnaryOperator Opc E s = Inr s'"
    | (b) Opc L R where "VisitBinaryOperator Opc L R s = Inr s'"
    | (d) DD where "dd_canonical DD = Some d \<longrightarrow> isVAArgField DD"
        and "VisitDeclaratorDecl DD s = Inr s'"
    unfolding visit_step_def by blast
  then show ?thesis
  proof cases
    case u
    from VisitUnaryOperator_cases [OF u] assms(2) show ?thesis by auto
  next
    case b
    from VisitBinaryOperator_cases [OF b] assms(2) show ?thesis by auto
  next
    case d
    from VisitDeclaratorDecl_cases [OF d(2)] d(1) assms(2) show ?thesis by auto
  qed
qed

lemma va_arg_steps:
  assumes "(visit_step (\<lambda>DD. dd_canonical DD = Some d \<longrightarrow> isVAArgField DD))\<^sup>*\<^sup>* s s'"
    and "d \<notin> VisitedDecls s"
  shows "d \<notin> VisitedDecls s'"
  using assms
proof (induction rule: rtranclp_induct)
  case base
  then show ?case by simp
next
  case (step y z)
  then show ?case using va_arg_step [OF step.hyps(2)] by blast
qed

section \<open>The rewrite traversal and the entry point\<close>

lemma Rewrite_TraverseStmt_id:
  shows "Rewrite_TraverseStmt E s = s" and "Rewrite_TraverseStmts Es s = s"
  by (induction E s and Es s rule: Rewrite_TraverseStmt_Rewrite_TraverseStmts.induct)
    (simp_all add: Rewrite_VisitUnaryOperator_def Rewrite_VisitDeclRefExpr_def
      Rewrite_VisitMemberExpr_def Rewrite_VisitArraySubscriptExpr_def)

lemma record_type_cases:
  "isStructureType T \<or> isUnionType T \<Longrightarrow> \<exists>K R. T = RecordType K R"
  by (cases T) simp_all

lemma aggregate_cases:
  "isAggregateType T \<Longrightarrow> \<not> isArrayType T \<Longrightarrow> \<exists>K R. T = RecordType K R"
  by (cases T) simp_all

lemma Rewrite_VisitVarDecl_id: "Rewrite_VisitVarDecl Ctx VD s = Inr s"
proof (cases "dd_init VD")
  case None
  then show ?thesis
    by (simp add: Rewrite_VisitVarDecl_def rewriteVarDecl_def)
next
  case (Some Init)
  show ?thesis
  proof (cases "isAggregateType (dd_type VD)")
    case False
    with Some show ?thesis
      by (simp add: Rewrite_VisitVarDecl_def rewriteVarDecl_def Let_def)
  next
    case agg: True
    show ?thesis
    proof (cases "isArrayType (dd_type VD)")
      case True
      show ?thesis
      proof (cases "isStructureType (getArrayBaseElemType (dd_type VD))
          \<or> isUnionType (getArrayBaseElemType (dd_type VD))")
        case False
        with Some agg True show ?thesis
          by (simp add: Rewrite_VisitVarDecl_def rewriteVarDecl_def Let_def)
      next
        case rec: True
        from record_type_cases [OF rec] obtain K R where
          "getArrayBaseElemType (dd_type VD) = RecordType K R" by blast
        with Some agg True rec show ?thesis
          by (auto simp add: Rewrite_VisitVarDecl_def rewriteVarDecl_def rewriteArrayInit_def Let_def)
      qed
    next
      case False
      from aggregate_cases [OF agg False] obtain K R where "dd_type VD = RecordType K R"
        by blast
      with Some agg False show ?thesis
        by (simp add: Rewrite_VisitVarDecl_def rewriteVarDecl_def rewriteRecordInit_def Let_def)
    qed
  qed
qed

lemma Rewrite_VisitFieldDecl_id: "Rewrite_VisitFieldDecl Ctx FD s = Inr s"
  by (simp add: Rewrite_VisitFieldDecl_def rewriteFieldDecl_def split: option.splits)

lemma Rewrite_TraverseDecl_id:
  shows "Rewrite_TraverseDecl Ctx N s = Inr s" and "Rewrite_TraverseDecls Ctx Ns s = Inr s"
proof (induction Ctx N s and Ctx Ns s rule: Rewrite_TraverseDecl_Rewrite_TraverseDecls.induct)
  case (1 Ctx DD Children s)
  have v: "(if isVarDecl (dd_kind DD) then Rewrite_VisitVarDecl Ctx DD s
            else if isFieldDecl (dd_kind DD) then Rewrite_VisitFieldDecl Ctx DD s
            else Inr s) = Inr s"
    by (simp add: Rewrite_VisitVarDecl_id Rewrite_VisitFieldDecl_id)
  have i: "(case dd_init DD of None \<Rightarrow> s | Some Init \<Rightarrow> Rewrite_TraverseStmt Init s) = s"
    by (cases "dd_init DD") (simp_all add: Rewrite_TraverseStmt_id)
  show ?case
    using "1.IH" [OF v] by (simp add: v i)
next
  case (5 Ctx D Ds s)
  then show ?case by simp
qed (simp_all add: Rewrite_TraverseStmt_id)

lemma HandleTranslationUnit_eq:
  "HandleTranslationUnit Ctx s =
     (if QueryInstanceOnly s then Inr (doAnalysis s)
      else if TransformationCounter s > ValidInstanceNum (doAnalysis s)
      then Inr ((doAnalysis s)\<lparr>TransError := TransMaxInstanceError\<rparr>)
      else case TheDecl (doAnalysis s) of
        None \<Rightarrow> Inl (TransAssertFailure ''NULL TheDecl!'')
      | Some TheD \<Rightarrow>
          Inr ((setRecordDecl Ctx ((doAnalysis s)\<lparr>SuppressAllDiagnostics := False\<rparr>))
                \<lparr>TransError := (if hasErrorOccurred Ctx \<or> hasFatalErrorOccurred Ctx
                                then TransInternalError else TransError s)\<rparr>))"
proof -
  have q: "QueryInstanceOnly (doAnalysis s) = QueryInstanceOnly s"
    and k: "TransformationCounter (doAnalysis s) = TransformationCounter s"
    and e: "TransError (doAnalysis s) = TransError s"
    by (simp_all add: doAnalysis_eq)
  have e': "TransError (setRecordDecl Ctx ((doAnalysis s)\<lparr>SuppressAllDiagnostics := False\<rparr>))
      = TransError s"
    by (simp add: setRecordDecl_def e split: option.splits)
  have same: "r\<lparr>TransError := TransError r\<rparr> = r" for r :: state
    by simp
  show ?thesis
    unfolding HandleTranslationUnit_def Let_def q k
    by (auto simp add: Rewrite_TraverseDecl_id e' [symmetric] split: option.splits)
qed

lemma run_pass_collected:
  assumes "HandleTopLevelDecls Groups (initial_state k q) = Inr s"
  shows "run_pass Ctx Groups k q = HandleTranslationUnit Ctx s"
  using assms by (simp add: run_pass_def)

lemma collected_count:
  assumes "HandleTopLevelDecls Groups (initial_state k q) = Inr s"
  shows "ValidInstanceNum (doAnalysis s) = int (card {d. eligible s d})"
proof -
  have "distinct (eligible_order s)"
    using registry_inv_collected [OF assms] by (rule distinct_eligible_order)
  from distinct_card [OF this] have "card {d. eligible s d} = length (eligible_order s)"
    by (simp add: set_eligible_order)
  moreover have "ValidInstanceNum s = 0"
    using collected_driver_fields [OF assms] by simp
  ultimately show ?thesis
    by (simp add: doAnalysis_eq)
qed

section \<open>Only pointer-typed declarations are registered, at their level\<close>

lemma pointee_loop_ge: "n \<le> pointee_loop QT n"
  by (induction QT n rule: pointee_loop.induct) simp_all

lemma pointer_level_pos: "isPointerType T \<Longrightarrow> 0 < getPointerIndirectLevel T"
proof (cases T)
  case (PointerType U)
  have "1 \<le> pointee_loop (getPointeeType U) 1"
    by (rule pointee_loop_ge)
  with PointerType show ?thesis
    by (simp add: getPointerIndirectLevel_def)
qed simp_all

lemma level_zero_not_pointer: "getPointerIndirectLevel T = 0 \<Longrightarrow> \<not> isPointerType T"
  using pointer_level_pos [of T] by auto

lemma VisitDeclaratorDecl_not_pointer:
  "\<not> isPointerType (declared_base_type DD) \<Longrightarrow> VisitDeclaratorDecl DD s = Inr s"
  by (simp add: VisitDeclaratorDecl_def declared_base_type_def Let_def)

lemma VisitDeclaratorDecl_registers:
  assumes "VisitDeclaratorDecl DD s = Inr s'"
  shows "s' = s \<or> (\<exists>d. dd_canonical DD = Some d \<and> d \<notin> VisitedDecls s
            \<and> (dd_kind DD = Decl_Var \<or> dd_kind DD = Decl_Field)
            \<and> isPointerType (declared_base_type DD)
            \<and> s' = register d (getPointerIndirectLevel (declared_base_type DD)) s)"
  using assms
  by (auto simp add: VisitDeclaratorDecl_def declared_base_type_def Let_def register_def
      addOneDecl_def decls_at_def max_def split: if_splits option.splits)

lemma set_DeclSet_insert: "set (DeclSet_insert d ds) = insert d (set ds)"
  by (auto simp add: DeclSet_insert_def)

lemma registered_origin_step:
  assumes step: "visit_step Q s s'"
    and inv: "\<And>l d. d \<in> set (decls_at s l) \<Longrightarrow>
        \<exists>DD. Q DD \<and> dd_canonical DD = Some d
          \<and> (dd_kind DD = Decl_Var \<or> dd_kind DD = Decl_Field)
          \<and> isPointerType (declared_base_type DD)
          \<and> l = getPointerIndirectLevel (declared_base_type DD)"
    and mem: "d \<in> set (decls_at s' l)"
  shows "\<exists>DD. Q DD \<and> dd_canonical DD = Some d
          \<and> (dd_kind DD = Decl_Var \<or> dd_kind DD = Decl_Field)
          \<and> isPointerType (declared_base_type DD)
          \<and> l = getPointerIndirectLevel (declared_base_type DD)"
proof -
  from step consider
      (u) Opc E where "VisitUnaryOperator Opc E s = Inr s'"
    | (b) Opc L R where "VisitBinaryOperator Opc L R s = Inr s'"
    | (d) DD where "Q DD" and "VisitDeclaratorDecl DD s = Inr s'"
    unfolding visit_step_def by blast
  then show ?thesis
  proof cases
    case u
    from VisitUnaryOperator_cases [OF u] mem have "d \<in> set (decls_at s l)" by auto
    then show ?thesis by (rule inv)
  next
    case b
    from VisitBinaryOperator_cases [OF b] mem have "d \<in> set (decls_at s l)" by auto
    then show ?thesis by (rule inv)
  next
    case d
    from VisitDeclaratorDecl_registers [OF d(2)] show ?thesis
    proof
      assume "s' = s"
      with mem have "d \<in> set (decls_at s l)" by simp
      then show ?thesis by (rule inv)
    next
      assume "\<exists>c. dd_canonical DD = Some c \<and> c \<notin> VisitedDecls s
            \<and> (dd_kind DD = Decl_Var \<or> dd_kind DD = Decl_Field)
            \<and> isPointerType (declared_base_type DD)
            \<and> s' = register c (getPointerIndirectLevel (declared_base_type DD)) s"
      then obtain c where c: "dd_canonical DD = Some c"
        "dd_kind DD = Decl_Var \<or> dd_kind DD = Decl_Field"
        "isPointerType (declared_base_type DD)"
        "s' = register c (getPointerIndirectLevel (declared_base_type DD)) s"
        by blast
      from mem c(4) have "(d = c \<and> l = getPointerIndirectLevel (declared_base_type DD))
          \<or> d \<in> set (decls_at s l)"
        by (auto simp add: decls_at_register set_DeclSet_insert split: if_splits)
      then show ?thesis
      proof
        assume "d = c \<and> l = getPointerIndirectLevel (declared_base_type DD)"
        with c d(1) show ?thesis by blast
      next
        assume "d \<in> set (decls_at s l)"
        then show ?thesis by (rule inv)
      qed
    qed
  qed
qed

lemma registered_origin_steps:
  assumes "(visit_step Q)\<^sup>*\<^sup>* s s'"
    and "\<And>l d. d \<notin> set (decls_at s l)"
  shows "d \<in> set (decls_at s' l) \<Longrightarrow>
        \<exists>DD. Q DD \<and> dd_canonical DD = Some d
          \<and> (dd_kind DD = Decl_Var \<or> dd_kind DD = Decl_Field)
          \<and> isPointerType (declared_base_type DD)
          \<and> l = getPointerIndirectLevel (declared_base_type DD)"
  using assms(1)
proof (induction arbitrary: d l rule: rtranclp_induct)
  case base
  then show ?case using assms(2) by simp
next
  case (step y z)
  show ?case
    by (rule registered_origin_step [OF step.hyps(2) _ step.prems]) (rule step.IH)
qed

lemma registered_origin:
  assumes "HandleTopLevelDecls Groups (initial_state k q) = Inr s"
    and "d \<in> set (decls_at s l)"
  shows "\<exists>DD \<in> set (declarators_list (concat Groups)). dd_canonical DD = Some d
          \<and> (dd_kind DD = Decl_Var \<or> dd_kind DD = Decl_Field)
          \<and> isPointerType (declared_base_type DD)
          \<and> l = getPointerIndirectLevel (declared_base_type DD)"
proof -
  let ?Q = "\<lambda>DD. DD \<in> set (declarators_list (concat Groups))"
  have all: "list_all ?Q (declarators_list (concat Groups))"
    by (simp add: list_all_iff)
  have empty: "\<And>l d. d \<notin> set (decls_at (initial_state k q) l)"
    by (simp add: initial_state_def decls_at_def)
  from registered_origin_steps [OF HandleTopLevelDecls_steps [OF all assms(1)] empty assms(2)]
  show ?thesis by blast
qed

section \<open>Evaluation on an input\<close>

lemmas example_defs =
  example_p_def example_q_def example_r_def example_ref_def example_addr_of_def
  example_f_def example_call_def example_assign_def example_deref_def
  example_va_arg_def example_ctx_def example_x_def

lemmas collector_defs =
  HandleTopLevelDecl_def VisitDeclaratorDecl_def isVAArgField_def getPointerIndirectLevel_def
  addOneDecl_def DeclSet_insert_def VisitUnaryOperator_def VisitBinaryOperator_def
  ignoreSubscriptExprParenCasts_def initial_state_def Let_def

lemmas selector_defs =
  doAnalysis_def levels_loop.simps count_instance_def with_request_def decls_at_def

section \<open>The claims\<close>

text \<open>
  C1. Selection is two-tiered. The analysis adds to the running count the number of valid
  declarations at \<open>MaxIndirectLevel\<close>, address-taken or not, and then the number of
  declarations that are valid and not address-taken at the levels from
  \<open>MaxIndirectLevel - 1\<close> down to 1, and it selects by the instance index from the two
  tiers in this order. So every valid declaration at the maximum level is selected by some
  index, and a declaration the analysis selects is valid and either at the maximum level
  or not address-taken.
\<close>

theorem two_tier_selection:
  "ValidInstanceNum (doAnalysis s)
     = ValidInstanceNum s + int (length (tier1 s)) + int (length (tier2 s))
   \<and> TheDecl (doAnalysis s)
     = pick (TransformationCounter s) (ValidInstanceNum s) (tier1 s @ tier2 s) (TheDecl s)
   \<and> (d \<in> set (decls_at s (MaxIndirectLevel s)) \<and> d \<in> ValidDecls s
        \<longrightarrow> (\<exists>k. TheDecl (doAnalysis (s\<lparr>TransformationCounter := k\<rparr>)) = Some d))
   \<and> (TheDecl (doAnalysis s) = Some d \<and> TheDecl s \<noteq> Some d
        \<longrightarrow> d \<in> ValidDecls s
          \<and> (d \<in> set (decls_at s (MaxIndirectLevel s)) \<or> d \<notin> AddrTakenDecls s))"
proof (intro conjI impI)
  show "ValidInstanceNum (doAnalysis s)
      = ValidInstanceNum s + int (length (tier1 s)) + int (length (tier2 s))"
    by (simp add: doAnalysis_eq eligible_order_def)
next
  show "TheDecl (doAnalysis s)
      = pick (TransformationCounter s) (ValidInstanceNum s) (tier1 s @ tier2 s) (TheDecl s)"
    by (simp add: doAnalysis_eq eligible_order_def)
next
  assume "d \<in> set (decls_at s (MaxIndirectLevel s)) \<and> d \<in> ValidDecls s"
  then have "d \<in> set (eligible_order s)"
    by (simp add: eligible_order_def tier1_def)
  then obtain i where i: "i < length (eligible_order s)" and d: "eligible_order s ! i = d"
    by (auto simp add: in_set_conv_nth)
  have "TheDecl (doAnalysis (s\<lparr>TransformationCounter := ValidInstanceNum s + int i + 1\<rparr>)) = Some d"
    using pick_index [OF i, of "ValidInstanceNum s" "TheDecl s"] d
    by (simp add: doAnalysis_eq)
  then show "\<exists>k. TheDecl (doAnalysis (s\<lparr>TransformationCounter := k\<rparr>)) = Some d" ..
next
  assume a: "TheDecl (doAnalysis s) = Some d \<and> TheDecl s \<noteq> Some d"
  then have "pick (TransformationCounter s) (ValidInstanceNum s) (eligible_order s) (TheDecl s) = Some d"
    by (simp add: doAnalysis_eq)
  from pick_in_set [OF this] a have "d \<in> set (eligible_order s)"
    by simp
  then have e: "eligible s d"
    by (simp add: set_eligible_order)
  from e show "d \<in> ValidDecls s"
    by (auto simp add: eligible_def)
  from e show "d \<in> set (decls_at s (MaxIndirectLevel s)) \<or> d \<notin> AddrTakenDecls s"
    by (auto simp add: eligible_def)
qed

theorem two_tier_selection_witness:
  "\<exists>s. HandleTopLevelDecls example_address_taken (initial_state 1 False) = Inr s
     \<and> MaxIndirectLevel s = 2 \<and> tier1 s = [1] \<and> tier2 s = [2]
     \<and> 1 \<in> AddrTakenDecls s \<and> 3 \<in> AddrTakenDecls s \<and> 3 \<in> ValidDecls s
     \<and> ValidInstanceNum (doAnalysis s) = 2
     \<and> TheDecl (doAnalysis s) = Some 1 \<and> 1 \<in> ValidDecls s
     \<and> (\<exists>k. TheDecl (doAnalysis (s\<lparr>TransformationCounter := k\<rparr>)) = Some 1)
     \<and> (\<forall>k. TheDecl (doAnalysis (s\<lparr>TransformationCounter := k\<rparr>)) \<noteq> Some 3)"
proof -
  have "\<exists>s. HandleTopLevelDecls example_address_taken (initial_state 1 False) = Inr s
      \<and> MaxIndirectLevel s = 2 \<and> AllPtrDecls s 2 = Some [1] \<and> AllPtrDecls s 1 = Some [2, 3]
      \<and> ValidDecls s = {1, 2, 3} \<and> AddrTakenDecls s = {1, 3}
      \<and> ValidInstanceNum s = 0 \<and> TheDecl s = None \<and> TransformationCounter s = 1"
    by (simp add: example_address_taken_def example_defs collector_defs insert_commute)
  then obtain s where run: "HandleTopLevelDecls example_address_taken (initial_state 1 False) = Inr s"
    and s: "MaxIndirectLevel s = 2" "AllPtrDecls s 2 = Some [1]" "AllPtrDecls s 1 = Some [2, 3]"
      "ValidDecls s = {1, 2, 3}" "AddrTakenDecls s = {1, 3}" "ValidInstanceNum s = 0"
      "TheDecl s = None" "TransformationCounter s = 1"
    by blast
  have t1: "tier1 s = [1]"
    using s by (simp add: tier1_def decls_at_def)
  have t2: "tier2 s = [2]"
    using s by (simp add: tier2_def tier2_level_def decls_at_def upto.simps)
  have at: "1 \<in> set (decls_at s (MaxIndirectLevel s)) \<and> 1 \<in> ValidDecls s"
    using s by (simp add: decls_at_def)
  have sel: "\<exists>k. TheDecl (doAnalysis (s\<lparr>TransformationCounter := k\<rparr>)) = Some 1"
    using two_tier_selection [of s 1] at by blast
  have count: "ValidInstanceNum (doAnalysis s) = 2"
    using two_tier_selection [of s 1] s t1 t2 by simp
  have never: "TheDecl (doAnalysis (s\<lparr>TransformationCounter := k\<rparr>)) \<noteq> Some 3" for k
  proof
    assume "TheDecl (doAnalysis (s\<lparr>TransformationCounter := k\<rparr>)) = Some 3"
    with two_tier_selection [of "s\<lparr>TransformationCounter := k\<rparr>" 3] s
    show False by (simp add: decls_at_def)
  qed
  have first: "TheDecl (doAnalysis s) = Some 1"
    using two_tier_selection [of s 1] s t1 t2 by (simp add: pick_def)
  have valid: "1 \<in> ValidDecls s"
    using two_tier_selection [of s 1] first s(7) by simp
  from run s t1 t2 sel count never first valid show ?thesis
    by auto
qed

text \<open>
  C2. After the collection of any program the reported count is the number of
  declarations that survive the filtering, the counted declarations are these, each
  once, the collection and the count do not depend on the index requested, and the index
  selects by a bijection between 1..count and the surviving declarations.
\<close>

theorem selection_bijection:
  assumes "HandleTopLevelDecls Groups (initial_state k0 q0) = Inr s"
  shows "ValidInstanceNum (doAnalysis s) = int (card {d. eligible s d})
       \<and> distinct (eligible_order s) \<and> set (eligible_order s) = {d. eligible s d}
       \<and> (\<forall>k q. HandleTopLevelDecls Groups (initial_state k q) = Inr (with_request k q s))
       \<and> (\<forall>k q. ValidInstanceNum (doAnalysis (with_request k q s))
                  = ValidInstanceNum (doAnalysis s))
       \<and> (\<forall>q. bij_betw (\<lambda>k. TheDecl (doAnalysis (with_request k q s)))
                 {1..ValidInstanceNum (doAnalysis s)} (Some ` {d. eligible s d}))"
proof -
  have inv: "registry_inv s"
    using assms by (rule registry_inv_collected)
  have fields: "ValidInstanceNum s = 0" "TheDecl s = None"
    using collected_driver_fields [OF assms] by simp_all
  have dist: "distinct (eligible_order s)"
    using inv by (rule distinct_eligible_order)
  have count: "ValidInstanceNum (doAnalysis s) = int (length (eligible_order s))"
    using fields by (simp add: doAnalysis_eq)
  have card: "card {d. eligible s d} = length (eligible_order s)"
    using distinct_card [OF dist] by (simp add: set_eligible_order)
  have order_request: "eligible_order (with_request k q s) = eligible_order s" for k q
    by (simp add: with_request_def)
  have count_request: "ValidInstanceNum (doAnalysis (with_request k q s))
      = ValidInstanceNum (doAnalysis s)" for k q
    using fields by (simp add: doAnalysis_eq order_request) (simp add: with_request_def)
  have select: "TheDecl (doAnalysis (with_request k q s)) = pick k 0 (eligible_order s) None" for k q
    using fields by (simp add: doAnalysis_eq order_request) (simp add: with_request_def)
  have bij: "bij_betw (\<lambda>k. TheDecl (doAnalysis (with_request k q s)))
      {1..ValidInstanceNum (doAnalysis s)} (Some ` {d. eligible s d})" for q
    using pick_bij [OF dist] by (simp add: select count set_eligible_order)
  show ?thesis
    using count card dist set_eligible_order [of s] collected_request [OF assms] count_request bij
    by simp
qed

theorem selection_bijection_witness:
  "\<exists>s. HandleTopLevelDecls example_address_taken (initial_state 1 False) = Inr s
     \<and> ValidInstanceNum (doAnalysis s) = 2
     \<and> int (card {d. eligible s d}) = 2
     \<and> TheDecl (doAnalysis (with_request 1 False s)) = Some 1
     \<and> TheDecl (doAnalysis (with_request 2 False s)) = Some 2
     \<and> bij_betw (\<lambda>k. TheDecl (doAnalysis (with_request k False s))) {1..2}
          (Some ` {d. eligible s d})"
proof -
  have "\<exists>s. HandleTopLevelDecls example_address_taken (initial_state 1 False) = Inr s
      \<and> ValidInstanceNum (doAnalysis s) = 2
      \<and> TheDecl (doAnalysis (with_request 1 False s)) = Some 1
      \<and> TheDecl (doAnalysis (with_request 2 False s)) = Some 2"
    by (simp add: example_address_taken_def example_defs collector_defs selector_defs)
  then obtain s where run: "HandleTopLevelDecls example_address_taken (initial_state 1 False) = Inr s"
    and s: "ValidInstanceNum (doAnalysis s) = 2"
      "TheDecl (doAnalysis (with_request 1 False s)) = Some 1"
      "TheDecl (doAnalysis (with_request 2 False s)) = Some 2"
    by blast
  note main = selection_bijection [OF run]
  have c: "int (card {d. eligible s d}) = 2"
    using main s(1) by simp
  have b: "bij_betw (\<lambda>k. TheDecl (doAnalysis (with_request k False s))) {1..2}
      (Some ` {d. eligible s d})"
    using main s(1) by simp
  show ?thesis
    using run s c b by (intro exI [of _ s]) simp
qed

text \<open>
  C3. At a plain or compound assignment with a pointer-typed left-hand side: when the
  right-hand side, under parentheses and casts, is a declaration reference, a unary
  operator or an array subscript, the visit changes nothing; for any other right-hand
  side the declaration the left-hand side resolves to is removed from the valid set, so
  it is not eligible and the analysis does not select it. A declaration that is
  registered and removed stays out of the valid set for the rest of the collection.
\<close>

theorem assignment_disqualification:
  "((isAssignmentOp Opc \<or> isCompoundAssignmentOp Opc) \<and> isPointerType (getType Lhs)
      \<and> safe_rhs Rhs
     \<longrightarrow> VisitBinaryOperator Opc Lhs Rhs s = Inr s)
 \<and> ((isAssignmentOp Opc \<or> isCompoundAssignmentOp Opc) \<and> isPointerType (getType Lhs)
      \<and> \<not> safe_rhs Rhs \<and> getRefDecl Lhs = Inr DD
     \<longrightarrow> VisitBinaryOperator Opc Lhs Rhs s = Inr (s\<lparr>ValidDecls := ValidDecls s - {DD}\<rparr>)
       \<and> \<not> eligible (s\<lparr>ValidDecls := ValidDecls s - {DD}\<rparr>) DD
       \<and> (TheDecl s = None
            \<longrightarrow> TheDecl (doAnalysis (s\<lparr>ValidDecls := ValidDecls s - {DD}\<rparr>)) \<noteq> Some DD))
 \<and> (DD \<in> VisitedDecls s \<and> DD \<notin> ValidDecls s \<and> HandleTopLevelDecls Groups s = Inr s'
     \<longrightarrow> DD \<notin> ValidDecls s' \<and> \<not> eligible s' DD)"
proof (intro conjI impI)
  assume "(isAssignmentOp Opc \<or> isCompoundAssignmentOp Opc) \<and> isPointerType (getType Lhs)
      \<and> safe_rhs Rhs"
  then show "VisitBinaryOperator Opc Lhs Rhs s = Inr s"
    by (auto simp add: VisitBinaryOperator_def safe_rhs_def Let_def)
next
  let ?s' = "s\<lparr>ValidDecls := ValidDecls s - {DD}\<rparr>"
  assume a: "(isAssignmentOp Opc \<or> isCompoundAssignmentOp Opc) \<and> isPointerType (getType Lhs)
      \<and> \<not> safe_rhs Rhs \<and> getRefDecl Lhs = Inr DD"
  then show "VisitBinaryOperator Opc Lhs Rhs s = Inr ?s'"
    by (auto simp add: VisitBinaryOperator_def safe_rhs_def Let_def)
  show ne: "\<not> eligible ?s' DD"
    by (rule not_eligible_invalid) simp
  show "TheDecl (doAnalysis ?s') \<noteq> Some DD" if "TheDecl s = None"
    using not_selected [OF ne] that by simp
next
  assume a: "DD \<in> VisitedDecls s \<and> DD \<notin> ValidDecls s \<and> HandleTopLevelDecls Groups s = Inr s'"
  then have "(visit_step (\<lambda>DD. True))\<^sup>*\<^sup>* s s'"
    using HandleTopLevelDecls_steps [OF all_declarators] by blast
  from disqualified_steps [OF this] a show "DD \<notin> ValidDecls s'"
    by blast
  then show "\<not> eligible s' DD"
    by (rule not_eligible_invalid)
qed

theorem assignment_disqualification_witness:
  "\<exists>s. HandleTopLevelDecls [[DeclaratorDeclNode example_p []]] (initial_state 1 False) = Inr s
     \<and> 1 \<in> ValidDecls s \<and> eligible s 1
     \<and> VisitBinaryOperator BO_Assign (example_ref example_p)
          (CastExpr (dd_type example_p) (example_addr_of (example_ref example_q))) s = Inr s
     \<and> VisitBinaryOperator BO_Assign (example_ref example_p) example_call s
          = Inr (s\<lparr>ValidDecls := ValidDecls s - {1}\<rparr>)
     \<and> \<not> eligible (s\<lparr>ValidDecls := ValidDecls s - {1}\<rparr>) 1
     \<and> TheDecl (doAnalysis (s\<lparr>ValidDecls := ValidDecls s - {1}\<rparr>)) \<noteq> Some 1
     \<and> (\<exists>s'. HandleTopLevelDecls [[DeclaratorDeclNode example_p []]]
                (s\<lparr>ValidDecls := ValidDecls s - {1}\<rparr>) = Inr s'
             \<and> 1 \<notin> ValidDecls s' \<and> \<not> eligible s' 1)"
proof -
  have "\<exists>s. HandleTopLevelDecls [[DeclaratorDeclNode example_p []]] (initial_state 1 False) = Inr s
      \<and> 1 \<in> ValidDecls s \<and> 1 \<in> VisitedDecls s \<and> TheDecl s = None
      \<and> MaxIndirectLevel s = 2 \<and> AllPtrDecls s 2 = Some [1]"
    by (simp add: example_defs collector_defs)
  then obtain s where run: "HandleTopLevelDecls [[DeclaratorDeclNode example_p []]] (initial_state 1 False) = Inr s"
    and s: "1 \<in> ValidDecls s" "1 \<in> VisitedDecls s" "TheDecl s = None"
      "MaxIndirectLevel s = 2" "AllPtrDecls s 2 = Some [1]"
    by blast
  let ?s' = "s\<lparr>ValidDecls := ValidDecls s - {1}\<rparr>"
  have el: "eligible s 1"
    using s by (simp add: eligible_def decls_at_def)
  have ptr: "isPointerType (getType (example_ref example_p))"
    by (simp add: example_defs)
  have safe: "safe_rhs (CastExpr (dd_type example_p) (example_addr_of (example_ref example_q)))"
    by (simp add: safe_rhs_def example_defs)
  have unsafe: "\<not> safe_rhs example_call"
    by (simp add: safe_rhs_def example_defs)
  have ref: "getRefDecl (example_ref example_p) = Inr 1"
    by (simp add: example_defs getRefDecl.simps ignoreSubscriptExprParenCasts_def
        subscript_loop.simps)
  note main = assignment_disqualification
  have w1: "VisitBinaryOperator BO_Assign (example_ref example_p)
      (CastExpr (dd_type example_p) (example_addr_of (example_ref example_q))) s = Inr s"
    using main [of BO_Assign "example_ref example_p"
        "CastExpr (dd_type example_p) (example_addr_of (example_ref example_q))" s] ptr safe
    by simp
  have w2: "VisitBinaryOperator BO_Assign (example_ref example_p) example_call s = Inr ?s'
      \<and> \<not> eligible ?s' 1 \<and> TheDecl (doAnalysis ?s') \<noteq> Some 1"
    using main [of BO_Assign "example_ref example_p" example_call s 1] ptr unsafe ref s(3)
    by simp
  have again: "HandleTopLevelDecls [[DeclaratorDeclNode example_p []]] ?s' = Inr ?s'"
    using VisitDeclaratorDecl_visited [of example_p 1 ?s'] s(2)
    by (simp add: HandleTopLevelDecl_def example_p_def)
  have w3: "1 \<notin> ValidDecls ?s' \<and> \<not> eligible ?s' 1"
    using main [of _ _ _ ?s' 1 "[[DeclaratorDeclNode example_p []]]" ?s'] again s(2)
    by simp
  from run s(1) el w1 w2 again w3 show ?thesis
    by blast
qed



text \<open>
  C5. In apply mode, for every program and every instance index greater than the count
  of eligible declarations, the run reports \<open>TransMaxInstanceError\<close>, whatever the
  diagnostics engine holds, and its final state is the state after the analysis with this
  error set: the rewriter holds no edit, diagnostics are still suppressed and no record is
  resolved, so no step of the rewrite phase has run.
\<close>

theorem max_instance_error:
  assumes "HandleTopLevelDecls Groups (initial_state k False) = Inr s"
    and "k > ValidInstanceNum (doAnalysis s)"
  shows "run_pass Ctx Groups k False = Inr ((doAnalysis s)\<lparr>TransError := TransMaxInstanceError\<rparr>)
       \<and> ValidInstanceNum (doAnalysis s) = int (card {d. eligible s d})
       \<and> TheRewriter (doAnalysis s) = [] \<and> SuppressAllDiagnostics (doAnalysis s) = True
       \<and> TheRecordDecl (doAnalysis s) = None"
proof -
  note fields = collected_driver_fields [OF assms(1)]
  have "HandleTranslationUnit Ctx s = Inr ((doAnalysis s)\<lparr>TransError := TransMaxInstanceError\<rparr>)"
    using fields assms(2) by (simp add: HandleTranslationUnit_eq)
  moreover have "TheRewriter (doAnalysis s) = []" "SuppressAllDiagnostics (doAnalysis s) = True"
    "TheRecordDecl (doAnalysis s) = None"
    using fields by (simp_all add: doAnalysis_eq)
  ultimately show ?thesis
    using run_pass_collected [OF assms(1)] collected_count [OF assms(1)] by simp
qed

theorem max_instance_error_witness:
  "result_of TransError
     (run_pass ((example_ctx example_scenario)\<lparr>hasErrorOccurred := True\<rparr>) example_scenario 3 False)
     = Some TransMaxInstanceError
 \<and> result_of TheRewriter
     (run_pass ((example_ctx example_scenario)\<lparr>hasErrorOccurred := True\<rparr>) example_scenario 3 False)
     = Some []
 \<and> result_of SuppressAllDiagnostics
     (run_pass ((example_ctx example_scenario)\<lparr>hasErrorOccurred := True\<rparr>) example_scenario 3 False)
     = Some True
 \<and> result_of ValidInstanceNum
     (run_pass ((example_ctx example_scenario)\<lparr>hasErrorOccurred := True\<rparr>) example_scenario 3 False)
     = Some 2"
proof -
  have "\<exists>s. HandleTopLevelDecls example_scenario (initial_state 3 False) = Inr s
      \<and> ValidInstanceNum (doAnalysis s) = 2"
    by (simp add: example_scenario_def example_defs collector_defs selector_defs
        getRefDecl.simps subscript_loop.simps)
  then obtain s where run: "HandleTopLevelDecls example_scenario (initial_state 3 False) = Inr s"
    and c: "ValidInstanceNum (doAnalysis s) = 2"
    by blast
  have "3 > ValidInstanceNum (doAnalysis s)"
    using c by simp
  from max_instance_error [OF run this, of "(example_ctx example_scenario)\<lparr>hasErrorOccurred := True\<rparr>"] c
  show ?thesis
    by (simp add: result_of_def)
qed

text \<open>
  C6, as stated, fails: the analysis does not test the query flag, so a run in query mode
  with instance index 1 on a program with the one pointer variable \<open>p\<close> selects
  \<open>p\<close>.
\<close>

theorem query_mode_selection_counterexample:
  "result_of TheDecl
     (run_pass (example_ctx [[DeclaratorDeclNode example_p []]])
        [[DeclaratorDeclNode example_p []]] 1 True) = Some (Some 1)"
  by (simp add: result_of_def run_pass_def HandleTranslationUnit_def example_ctx_def
      example_defs collector_defs selector_defs)

text \<open>
  C6, amended. In query mode the run ends after the analysis, for every program and every
  instance index: it reports the count of eligible declarations and no error, and makes no
  edit. The chosen declaration stays unset exactly when the instance index is outside
  1..count.
\<close>

theorem query_mode:
  assumes "HandleTopLevelDecls Groups (initial_state k True) = Inr s"
  shows "run_pass Ctx Groups k True = Inr (doAnalysis s)
       \<and> ValidInstanceNum (doAnalysis s) = int (card {d. eligible s d})
       \<and> TransError (doAnalysis s) = TransSuccess \<and> TheRewriter (doAnalysis s) = []
       \<and> SuppressAllDiagnostics (doAnalysis s) = True
       \<and> (TheDecl (doAnalysis s) = None
            \<longleftrightarrow> \<not> (1 \<le> k \<and> k \<le> ValidInstanceNum (doAnalysis s)))"
proof -
  note fields = collected_driver_fields [OF assms]
  have run: "run_pass Ctx Groups k True = Inr (doAnalysis s)"
    using run_pass_collected [OF assms] fields by (simp add: HandleTranslationUnit_eq)
  have frame: "TransError (doAnalysis s) = TransSuccess" "TheRewriter (doAnalysis s) = []"
    "SuppressAllDiagnostics (doAnalysis s) = True"
    using fields by (simp_all add: doAnalysis_eq)
  have count: "ValidInstanceNum (doAnalysis s) = int (length (eligible_order s))"
    using fields by (simp add: doAnalysis_eq)
  have sel: "TheDecl (doAnalysis s) = pick k 0 (eligible_order s) None"
    using fields by (simp add: doAnalysis_eq)
  have "TheDecl (doAnalysis s) = None \<longleftrightarrow> \<not> (1 \<le> k \<and> k \<le> ValidInstanceNum (doAnalysis s))"
    unfolding sel count by (auto simp add: pick_def)
  with run frame collected_count [OF assms] show ?thesis
    by simp
qed

theorem query_mode_witness:
  "result_of ValidInstanceNum (run_pass (example_ctx example_scenario) example_scenario (- 1) True)
     = Some 2
 \<and> result_of TheDecl (run_pass (example_ctx example_scenario) example_scenario (- 1) True)
     = Some None
 \<and> result_of TheRewriter (run_pass (example_ctx example_scenario) example_scenario (- 1) True)
     = Some []"
proof -
  have "\<exists>s. HandleTopLevelDecls example_scenario (initial_state (- 1) True) = Inr s
      \<and> ValidInstanceNum (doAnalysis s) = 2"
    by (simp add: example_scenario_def example_defs collector_defs selector_defs
        getRefDecl.simps subscript_loop.simps)
  then obtain s where run: "HandleTopLevelDecls example_scenario (initial_state (- 1) True) = Inr s"
    and c: "ValidInstanceNum (doAnalysis s) = 2"
    by blast
  from query_mode [OF run, of "example_ctx example_scenario"] c show ?thesis
    by (simp add: result_of_def)
qed

text \<open>
  C7, as stated, fails in two ways. After index 1 on \<open>example_scenario\<close> the selected
  declaration is \<open>p\<close> and the rewriter holds no edit: \<open>rewriteVarDecl\<close> and the
  expression visitors of the rewrite visitor are empty, so neither the declared type of
  \<open>p\<close> nor \<open>**p\<close> is rewritten. And on \<open>example_assigned\<close>, where \<open>q\<close> is
  neither address-taken nor assigned, the assignment \<open>p = f()\<close> disqualifies \<open>p\<close>:
  the count is 1 and index 1 selects \<open>q\<close>.
\<close>

theorem scenario_counterexample:
  "result_of TheDecl (run_pass (example_ctx example_scenario) example_scenario 1 False)
     = Some (Some 1)
 \<and> result_of TheRewriter (run_pass (example_ctx example_scenario) example_scenario 1 False)
     = Some []
 \<and> result_of ValidInstanceNum (run_pass (example_ctx example_assigned) example_assigned 1 True)
     = Some 1
 \<and> result_of TheDecl (run_pass (example_ctx example_assigned) example_assigned 1 False)
     = Some (Some 2)"
proof -
  have a: "\<exists>s. HandleTopLevelDecls example_scenario (initial_state 1 False) = Inr s
      \<and> TheDecl (doAnalysis s) = Some 1 \<and> ValidInstanceNum (doAnalysis s) = 2
      \<and> TheRewriter s = [] \<and> TransformationCounter s = 1 \<and> \<not> QueryInstanceOnly s"
    by (simp add: example_scenario_def example_defs collector_defs selector_defs
        getRefDecl.simps subscript_loop.simps)
  have b: "\<exists>s. HandleTopLevelDecls example_assigned (initial_state 1 True) = Inr s
      \<and> ValidInstanceNum (doAnalysis s) = 1 \<and> QueryInstanceOnly s"
    by (simp add: example_assigned_def example_defs collector_defs selector_defs
        getRefDecl.simps subscript_loop.simps)
  have c: "\<exists>s. HandleTopLevelDecls example_assigned (initial_state 1 False) = Inr s
      \<and> TheDecl (doAnalysis s) = Some 2 \<and> ValidInstanceNum (doAnalysis s) = 1
      \<and> TransformationCounter s = 1 \<and> \<not> QueryInstanceOnly s"
    by (simp add: example_assigned_def example_defs collector_defs selector_defs
        getRefDecl.simps subscript_loop.simps)
  from a obtain s where sa: "HandleTopLevelDecls example_scenario (initial_state 1 False) = Inr s"
    "TheDecl (doAnalysis s) = Some 1" "ValidInstanceNum (doAnalysis s) = 2" "TheRewriter s = []"
    "TransformationCounter s = 1" "\<not> QueryInstanceOnly s"
    by blast
  have ra: "result_of TheDecl (run_pass (example_ctx example_scenario) example_scenario 1 False)
      = Some (Some 1)
    \<and> result_of TheRewriter (run_pass (example_ctx example_scenario) example_scenario 1 False)
      = Some []"
    using sa
    by (simp add: run_pass_collected [OF sa(1)] HandleTranslationUnit_eq result_of_def
        setRecordDecl_def example_ctx_def doAnalysis_eq)
  from b obtain s where sb: "HandleTopLevelDecls example_assigned (initial_state 1 True) = Inr s"
    "ValidInstanceNum (doAnalysis s) = 1" "QueryInstanceOnly s"
    by blast
  have rb: "result_of ValidInstanceNum (run_pass (example_ctx example_assigned) example_assigned 1 True)
      = Some 1"
    using sb by (simp add: run_pass_collected [OF sb(1)] HandleTranslationUnit_eq result_of_def)
  from c obtain s where sc: "HandleTopLevelDecls example_assigned (initial_state 1 False) = Inr s"
    "TheDecl (doAnalysis s) = Some 2" "ValidInstanceNum (doAnalysis s) = 1"
    "TransformationCounter s = 1" "\<not> QueryInstanceOnly s"
    by blast
  have rc: "result_of TheDecl (run_pass (example_ctx example_assigned) example_assigned 1 False)
      = Some (Some 2)"
    using sc
    by (simp add: run_pass_collected [OF sc(1)] HandleTranslationUnit_eq result_of_def
        setRecordDecl_def example_ctx_def)
  from ra rb rc show ?thesis by simp
qed

text \<open>
  C7, amended. For a program whose registry holds \<open>int **p\<close> alone at level 2 and
  \<open>int *q\<close> alone at level 1, with both still valid after the assignment analysis and
  \<open>q\<close> not address-taken: the count query returns 2, index 1 selects \<open>p\<close> and
  index 2 selects \<open>q\<close>.
\<close>

theorem scenario_selection:
  assumes "HandleTopLevelDecls Groups (initial_state k q) = Inr s"
    and "MaxIndirectLevel s = 2" and "decls_at s 2 = [P]" and "decls_at s 1 = [Q]"
    and "P \<in> ValidDecls s" and "Q \<in> ValidDecls s" and "Q \<notin> AddrTakenDecls s"
  shows "result_of ValidInstanceNum (run_pass Ctx Groups k True) = Some 2
       \<and> result_of TheDecl (run_pass Ctx Groups 1 False) = Some (Some P)
       \<and> result_of TheDecl (run_pass Ctx Groups 2 False) = Some (Some Q)"
proof -
  have order: "eligible_order s = [P, Q]"
    using assms(2-7) by (simp add: eligible_order_def tier1_def tier2_def tier2_level_def)
  note fields = collected_driver_fields [OF assms(1)]
  have runs: "HandleTopLevelDecls Groups (initial_state k' q') = Inr (with_request k' q' s)" for k' q'
    using assms(1) by (rule collected_request)
  have an: "doAnalysis (with_request k' q' s)
      = (with_request k' q' s)\<lparr>TheDecl := pick k' 0 [P, Q] None, ValidInstanceNum := 2\<rparr>" for k' q'
    using fields order by (simp add: doAnalysis_eq) (simp add: with_request_def)
  have r: "run_pass Ctx Groups k' q' = HandleTranslationUnit Ctx (with_request k' q' s)" for k' q'
    using runs by (rule run_pass_collected)
  have f: "QueryInstanceOnly (with_request k' q' s) = q'"
    "TransformationCounter (with_request k' q' s) = k'" for k' q'
    by (simp_all add: with_request_def)
  have c1: "result_of ValidInstanceNum (run_pass Ctx Groups k True) = Some 2"
    by (simp add: r HandleTranslationUnit_eq f an result_of_def)
  have c2: "result_of TheDecl (run_pass Ctx Groups 1 False) = Some (Some P)"
    by (simp add: r HandleTranslationUnit_eq f an result_of_def pick_def setRecordDecl_def)
  have c3: "result_of TheDecl (run_pass Ctx Groups 2 False) = Some (Some Q)"
    by (simp add: r HandleTranslationUnit_eq f an result_of_def pick_def setRecordDecl_def)
  from c1 c2 c3 show ?thesis by simp
qed

theorem scenario_selection_witness:
  "result_of ValidInstanceNum (run_pass (example_ctx example_scenario) example_scenario 1 True)
     = Some 2
 \<and> result_of TheDecl (run_pass (example_ctx example_scenario) example_scenario 1 False)
     = Some (Some 1)
 \<and> result_of TheDecl (run_pass (example_ctx example_scenario) example_scenario 2 False)
     = Some (Some 2)"
proof -
  have "\<exists>s. HandleTopLevelDecls example_scenario (initial_state 1 False) = Inr s
      \<and> MaxIndirectLevel s = 2 \<and> AllPtrDecls s 2 = Some [1] \<and> AllPtrDecls s 1 = Some [2]
      \<and> 1 \<in> ValidDecls s \<and> 2 \<in> ValidDecls s \<and> 2 \<notin> AddrTakenDecls s"
    by (simp add: example_scenario_def example_defs collector_defs
        getRefDecl.simps subscript_loop.simps)
  then obtain s where run: "HandleTopLevelDecls example_scenario (initial_state 1 False) = Inr s"
    and s: "MaxIndirectLevel s = 2" "decls_at s 2 = [1]" "decls_at s 1 = [2]"
      "1 \<in> ValidDecls s" "2 \<in> ValidDecls s" "2 \<notin> AddrTakenDecls s"
    by (auto simp add: decls_at_def)
  from scenario_selection [OF run s, of "example_ctx example_scenario"] show ?thesis
    by simp
qed

text \<open>
  C8. Registration is idempotent over canonical identity. After the collection of any
  program, every registry set belongs to a level of at least 1 and holds no declaration
  twice, no declaration is in the sets of two levels, the visited declarations are exactly
  the registered ones, and the valid set holds registered declarations only; in every
  state, the visit of a declaration whose canonical declaration is already visited, hence
  of a further redeclaration, changes nothing. Every declaration registered at a level is
  the canonical declaration of a variable or field of the program whose type, an array
  reduced to its base element type, is a pointer type of exactly this indirection level,
  which is at least 1; and the visit of a declaration whose type is not a pointer type,
  in particular of one of indirection level 0, changes nothing.
\<close>

theorem registration_idempotent:
  assumes "HandleTopLevelDecls Groups (initial_state k q) = Inr s"
  shows "(\<forall>l Decls. AllPtrDecls s l = Some Decls \<longrightarrow> 1 \<le> l \<and> distinct Decls)
       \<and> (\<forall>l l' d. d \<in> set (decls_at s l) \<and> d \<in> set (decls_at s l') \<longrightarrow> l = l')
       \<and> (\<forall>d. d \<in> VisitedDecls s \<longleftrightarrow> (\<exists>l. d \<in> set (decls_at s l)))
       \<and> ValidDecls s \<subseteq> VisitedDecls s
       \<and> (\<forall>s0 DD d. dd_canonical DD = Some d \<and> d \<in> VisitedDecls s0
             \<longrightarrow> VisitDeclaratorDecl DD s0 = Inr s0)
       \<and> (\<forall>l d. d \<in> set (decls_at s l)
             \<longrightarrow> 1 \<le> l
               \<and> (\<exists>DD \<in> set (declarators_list (concat Groups)). dd_canonical DD = Some d
                     \<and> (dd_kind DD = Decl_Var \<or> dd_kind DD = Decl_Field)
                     \<and> isPointerType (declared_base_type DD)
                     \<and> l = getPointerIndirectLevel (declared_base_type DD)))
       \<and> (\<forall>s0 DD. \<not> isPointerType (declared_base_type DD)
             \<longrightarrow> VisitDeclaratorDecl DD s0 = Inr s0)
       \<and> (\<forall>s0 DD. getPointerIndirectLevel (declared_base_type DD) = 0
             \<longrightarrow> VisitDeclaratorDecl DD s0 = Inr s0)"
proof -
  have inv: "registry_inv s"
    using assms by (rule registry_inv_collected)
  have levels: "\<forall>l Decls. AllPtrDecls s l = Some Decls \<longrightarrow> 1 \<le> l \<and> distinct Decls"
    using inv unfolding registry_inv_def by force
  have one_level: "\<forall>l l' d. d \<in> set (decls_at s l) \<and> d \<in> set (decls_at s l') \<longrightarrow> l = l'"
    using inv unfolding registry_inv_def by blast
  have visited: "\<forall>d. d \<in> VisitedDecls s \<longleftrightarrow> (\<exists>l. d \<in> set (decls_at s l))"
    using inv unfolding registry_inv_def by blast
  have valid: "ValidDecls s \<subseteq> VisitedDecls s"
    using inv unfolding registry_inv_def by blast
  have again: "\<forall>s0 DD d. dd_canonical DD = Some d \<and> d \<in> VisitedDecls s0
      \<longrightarrow> VisitDeclaratorDecl DD s0 = Inr s0"
    using VisitDeclaratorDecl_visited by blast
  have origin: "\<forall>l d. d \<in> set (decls_at s l)
      \<longrightarrow> 1 \<le> l
        \<and> (\<exists>DD \<in> set (declarators_list (concat Groups)). dd_canonical DD = Some d
              \<and> (dd_kind DD = Decl_Var \<or> dd_kind DD = Decl_Field)
              \<and> isPointerType (declared_base_type DD)
              \<and> l = getPointerIndirectLevel (declared_base_type DD))"
  proof (intro allI impI conjI)
    fix l d
    assume mem: "d \<in> set (decls_at s l)"
    from registered_origin [OF assms mem]
    show "\<exists>DD \<in> set (declarators_list (concat Groups)). dd_canonical DD = Some d
        \<and> (dd_kind DD = Decl_Var \<or> dd_kind DD = Decl_Field)
        \<and> isPointerType (declared_base_type DD)
        \<and> l = getPointerIndirectLevel (declared_base_type DD)" .
    then show "1 \<le> l"
      using pointer_level_pos by force
  qed
  have skip: "\<forall>s0 DD. \<not> isPointerType (declared_base_type DD)
      \<longrightarrow> VisitDeclaratorDecl DD s0 = Inr s0"
    using VisitDeclaratorDecl_not_pointer by blast
  have zero: "\<forall>s0 DD. getPointerIndirectLevel (declared_base_type DD) = 0
      \<longrightarrow> VisitDeclaratorDecl DD s0 = Inr s0"
    using VisitDeclaratorDecl_not_pointer level_zero_not_pointer by blast
  from levels one_level visited valid again origin skip zero show ?thesis
    by (intro conjI)
qed

theorem registration_idempotent_witness:
  "\<exists>s. HandleTopLevelDecls example_mixed (initial_state 1 False) = Inr s
     \<and> AllPtrDecls s 2 = Some [1] \<and> AllPtrDecls s 1 = Some [2]
     \<and> (\<forall>l Decls. AllPtrDecls s l = Some Decls \<longrightarrow> 1 \<le> l \<and> distinct Decls)
     \<and> (\<forall>l l' d. d \<in> set (decls_at s l) \<and> d \<in> set (decls_at s l') \<longrightarrow> l = l')
     \<and> VisitDeclaratorDecl example_p s = Inr s
     \<and> getPointerIndirectLevel (declared_base_type example_x) = 0
     \<and> VisitDeclaratorDecl example_x s = Inr s
     \<and> (\<forall>l. 7 \<notin> set (decls_at s l))
     \<and> (\<exists>DD \<in> set (declarators_list (concat example_mixed)). dd_canonical DD = Some 1
           \<and> isPointerType (declared_base_type DD)
           \<and> getPointerIndirectLevel (declared_base_type DD) = 2)"
proof -
  have "\<exists>s. HandleTopLevelDecls example_mixed (initial_state 1 False) = Inr s
      \<and> AllPtrDecls s 2 = Some [1] \<and> AllPtrDecls s 1 = Some [2] \<and> 1 \<in> VisitedDecls s
      \<and> 7 \<notin> VisitedDecls s"
    by (simp add: example_mixed_def example_x_def example_p_def example_q_def collector_defs)
  then obtain s where run: "HandleTopLevelDecls example_mixed (initial_state 1 False) = Inr s"
    and regs: "AllPtrDecls s 2 = Some [1]" "AllPtrDecls s 1 = Some [2]"
    and vis: "1 \<in> VisitedDecls s" "7 \<notin> VisitedDecls s"
    by blast
  note main = registration_idempotent [OF run]
  have "dd_canonical example_p = Some 1"
    by (simp add: example_p_def)
  with main vis have again: "VisitDeclaratorDecl example_p s = Inr s"
    by blast
  have zero: "getPointerIndirectLevel (declared_base_type example_x) = 0"
    by (simp add: example_x_def declared_base_type_def getPointerIndirectLevel_def)
  with main have skip: "VisitDeclaratorDecl example_x s = Inr s"
    by blast
  from main vis(2) have unreg: "\<forall>l. 7 \<notin> set (decls_at s l)"
    by blast
  have "1 \<in> set (decls_at s 2)"
    using regs by (simp add: decls_at_def)
  with main have origin: "\<exists>DD \<in> set (declarators_list (concat example_mixed)).
      dd_canonical DD = Some 1 \<and> isPointerType (declared_base_type DD)
      \<and> getPointerIndirectLevel (declared_base_type DD) = 2"
    by (metis (no_types, lifting))
  from main have l1: "\<forall>l Decls. AllPtrDecls s l = Some Decls \<longrightarrow> 1 \<le> l \<and> distinct Decls"
    and l2: "\<forall>l l' d. d \<in> set (decls_at s l) \<and> d \<in> set (decls_at s l') \<longrightarrow> l = l'"
    by blast+
  from run regs l1 l2 again zero skip unreg origin show ?thesis
    by blast
qed

text \<open>
  C9. The escape hatch for variadic arguments goes by the name alone. The visit of a
  declaration named \<open>reg_save_area\<close> or \<open>overflow_arg_area\<close> changes nothing,
  whatever its kind and type; and a canonical declaration whose declarations in the
  program all have one of the two names is, after collection, not visited, not valid,
  in no registry set, not eligible and not selected.
\<close>

theorem va_arg_names_skipped:
  "(dd_name DD = ''reg_save_area'' \<or> dd_name DD = ''overflow_arg_area''
     \<longrightarrow> VisitDeclaratorDecl DD s0 = Inr s0)
 \<and> (list_all (\<lambda>DD. dd_canonical DD = Some d
                 \<longrightarrow> dd_name DD = ''reg_save_area'' \<or> dd_name DD = ''overflow_arg_area'')
        (declarators_list (concat Groups))
      \<and> HandleTopLevelDecls Groups (initial_state k q) = Inr s
     \<longrightarrow> d \<notin> VisitedDecls s \<and> d \<notin> ValidDecls s \<and> (\<forall>l. d \<notin> set (decls_at s l))
       \<and> \<not> eligible s d \<and> TheDecl (doAnalysis s) \<noteq> Some d)"
proof (intro conjI impI)
  assume "dd_name DD = ''reg_save_area'' \<or> dd_name DD = ''overflow_arg_area''"
  then show "VisitDeclaratorDecl DD s0 = Inr s0"
    by (auto simp add: VisitDeclaratorDecl_def isVAArgField_def)
next
  assume a: "list_all (\<lambda>DD. dd_canonical DD = Some d
                 \<longrightarrow> dd_name DD = ''reg_save_area'' \<or> dd_name DD = ''overflow_arg_area'')
        (declarators_list (concat Groups))
      \<and> HandleTopLevelDecls Groups (initial_state k q) = Inr s"
  then have run: "HandleTopLevelDecls Groups (initial_state k q) = Inr s"
    and names: "list_all (\<lambda>DD. dd_canonical DD = Some d \<longrightarrow> isVAArgField DD)
        (declarators_list (concat Groups))"
    by (simp_all add: isVAArgField_def)
  have inv: "registry_inv s"
    using run by (rule registry_inv_collected)
  have "d \<notin> VisitedDecls (initial_state k q)"
    by (simp add: initial_state_def)
  with va_arg_steps [OF HandleTopLevelDecls_steps [OF names run]]
  show unvisited: "d \<notin> VisitedDecls s"
    by blast
  with inv show invalid: "d \<notin> ValidDecls s"
    unfolding registry_inv_def by blast
  from unvisited inv show "\<forall>l. d \<notin> set (decls_at s l)"
    unfolding registry_inv_def by blast
  from invalid show ne: "\<not> eligible s d"
    by (rule not_eligible_invalid)
  have "TheDecl s = None"
    using collected_driver_fields [OF run] by simp
  with not_selected [OF ne] show "TheDecl (doAnalysis s) \<noteq> Some d"
    by simp
qed

theorem va_arg_names_skipped_witness:
  "VisitDeclaratorDecl example_va_arg (initial_state 1 False) = Inr (initial_state 1 False)
 \<and> (\<exists>s. HandleTopLevelDecls example_va_program (initial_state 1 False) = Inr s
        \<and> 5 \<notin> VisitedDecls s \<and> \<not> eligible s 5 \<and> TheDecl (doAnalysis s) = Some 2
        \<and> ValidInstanceNum (doAnalysis s) = 1)
 \<and> (\<exists>s. VisitDeclaratorDecl (example_va_arg\<lparr>dd_name := ''save_area''\<rparr>) (initial_state 1 False)
          = Inr s \<and> 5 \<in> VisitedDecls s)"
proof -
  note main = va_arg_names_skipped
  have w1: "VisitDeclaratorDecl example_va_arg (initial_state 1 False) = Inr (initial_state 1 False)"
    using main [of example_va_arg "initial_state 1 False"]
    by (simp add: example_va_arg_def)
  have "\<exists>s. HandleTopLevelDecls example_va_program (initial_state 1 False) = Inr s
      \<and> TheDecl (doAnalysis s) = Some 2 \<and> ValidInstanceNum (doAnalysis s) = 1"
    by (simp add: example_va_program_def example_va_arg_def example_defs collector_defs
        selector_defs)
  then obtain s where run: "HandleTopLevelDecls example_va_program (initial_state 1 False) = Inr s"
    and s: "TheDecl (doAnalysis s) = Some 2" "ValidInstanceNum (doAnalysis s) = 1"
    by blast
  have names: "list_all (\<lambda>DD. dd_canonical DD = Some 5
        \<longrightarrow> dd_name DD = ''reg_save_area'' \<or> dd_name DD = ''overflow_arg_area'')
      (declarators_list (concat example_va_program))"
    by (simp add: example_va_program_def example_va_arg_def example_defs)
  have "5 \<notin> VisitedDecls s \<and> \<not> eligible s 5"
    using main [of _ _ 5 example_va_program 1 False s] names run by blast
  with run s have w2: "\<exists>s. HandleTopLevelDecls example_va_program (initial_state 1 False) = Inr s
      \<and> 5 \<notin> VisitedDecls s \<and> \<not> eligible s 5 \<and> TheDecl (doAnalysis s) = Some 2
      \<and> ValidInstanceNum (doAnalysis s) = 1"
    by blast
  have w3: "\<exists>s. VisitDeclaratorDecl (example_va_arg\<lparr>dd_name := ''save_area''\<rparr>) (initial_state 1 False)
      = Inr s \<and> 5 \<in> VisitedDecls s"
    by (simp add: example_va_arg_def collector_defs)
  from w1 w2 w3 show ?thesis by blast
qed

text \<open>
  C10, as stated, fails: the visit returns on a safe right-hand side before it resolves
  the left-hand side. The assignment \<open>*f() = q\<close> has a pointer-typed left-hand side
  rooted in a call, and neither its visit nor its traversal fails an assertion.
\<close>

theorem lhs_resolution_counterexample:
  "\<not> resolvable_lhs (example_deref example_call)
 \<and> isAssignmentOp BO_Assign
 \<and> isPointerType (getType (example_deref example_call))
 \<and> VisitBinaryOperator BO_Assign (example_deref example_call)
      (CastExpr (PointerType BuiltinType) (example_ref example_q)) (initial_state 1 False)
     = Inr (initial_state 1 False)
 \<and> TraverseStmt
      (example_assign (example_deref example_call)
         (CastExpr (PointerType BuiltinType) (example_ref example_q)))
      (initial_state 1 False)
     = Inr (initial_state 1 False)"
  by (simp add: example_defs VisitBinaryOperator_def VisitUnaryOperator_def Let_def)

text \<open>
  C10, amended. Resolution of the left-hand side is partial. \<open>getRefDecl\<close> returns a
  declaration only for an expression that, under parentheses, casts and array subscripts,
  is a declaration reference, a member access or a chain of dereferences ending in one; on
  every other expression it fails an assertion. So the visit of an assignment with a
  pointer-typed left-hand side of another shape ends the traversal with an assertion
  failure when the right-hand side is not one of the three safe shapes; when the
  right-hand side is one of them, the visit changes nothing, whatever the left-hand side.
\<close>

theorem lhs_resolution_partial:
  "(getRefDecl Exp = Inr DD \<longrightarrow> resolvable_lhs Exp)
 \<and> (\<not> resolvable_lhs Exp \<longrightarrow> (\<exists>msg. getRefDecl Exp = Inl (TransAssertFailure msg)))
 \<and> ((isAssignmentOp Opc \<or> isCompoundAssignmentOp Opc) \<and> isPointerType (getType Lhs)
      \<and> \<not> safe_rhs Rhs \<and> \<not> resolvable_lhs Lhs
      \<longrightarrow> (\<exists>msg. VisitBinaryOperator Opc Lhs Rhs s = Inl (TransAssertFailure msg)
               \<and> TraverseStmt (BinaryOperator T Opc Lhs Rhs) s = Inl (TransAssertFailure msg)))
 \<and> (safe_rhs Rhs \<longrightarrow> VisitBinaryOperator Opc Lhs Rhs s = Inr s)"
proof (intro conjI impI)
  assume "getRefDecl Exp = Inr DD"
  then show "resolvable_lhs Exp" by (rule getRefDecl_resolvable)
next
  assume "\<not> resolvable_lhs Exp"
  then have "\<nexists>d. getRefDecl Exp = Inr d"
    using getRefDecl_resolvable by blast
  then show "\<exists>msg. getRefDecl Exp = Inl (TransAssertFailure msg)"
    using error_cases [of "getRefDecl Exp"] by blast
next
  assume a: "(isAssignmentOp Opc \<or> isCompoundAssignmentOp Opc) \<and> isPointerType (getType Lhs)
      \<and> \<not> safe_rhs Rhs \<and> \<not> resolvable_lhs Lhs"
  then have "\<nexists>d. getRefDecl Lhs = Inr d"
    using getRefDecl_resolvable by blast
  then obtain msg where msg: "getRefDecl Lhs = Inl (TransAssertFailure msg)"
    using error_cases [of "getRefDecl Lhs"] by blast
  have v: "VisitBinaryOperator Opc Lhs Rhs s = Inl (TransAssertFailure msg)"
    using a msg by (auto simp add: VisitBinaryOperator_def safe_rhs_def Let_def)
  then have "TraverseStmt (BinaryOperator T Opc Lhs Rhs) s = Inl (TransAssertFailure msg)"
    by simp
  with v show "\<exists>msg. VisitBinaryOperator Opc Lhs Rhs s = Inl (TransAssertFailure msg)
      \<and> TraverseStmt (BinaryOperator T Opc Lhs Rhs) s = Inl (TransAssertFailure msg)"
    by blast
next
  assume "safe_rhs Rhs"
  then show "VisitBinaryOperator Opc Lhs Rhs s = Inr s"
    by (auto simp add: VisitBinaryOperator_def safe_rhs_def Let_def)
qed

theorem lhs_resolution_partial_witness:
  "\<not> resolvable_lhs (example_deref example_call)
 \<and> getRefDecl (example_deref example_call) = Inl (TransAssertFailure ''Bad UnaryOperator!'')
 \<and> isPointerType (getType (example_deref example_call))
 \<and> \<not> safe_rhs (IntegerLiteral BuiltinType 0)
 \<and> (\<exists>msg. TraverseStmt
       (example_assign (example_deref example_call)
          (CastExpr (PointerType BuiltinType) (IntegerLiteral BuiltinType 0)))
       (initial_state 1 False) = Inl (TransAssertFailure msg))
 \<and> safe_rhs (CastExpr (PointerType BuiltinType) (example_ref example_q))
 \<and> VisitBinaryOperator BO_Assign (example_deref example_call)
      (CastExpr (PointerType BuiltinType) (example_ref example_q)) (initial_state 1 False)
     = Inr (initial_state 1 False)
 \<and> resolvable_lhs (example_deref (example_ref example_p))
 \<and> getRefDecl (example_deref (example_ref example_p)) = Inr 1"
proof -
  have r: "\<not> resolvable_lhs (example_deref example_call)"
    by (simp add: example_deref_def example_call_def)
  have "\<exists>msg. getRefDecl (example_deref example_call) = Inl (TransAssertFailure msg)"
    using lhs_resolution_partial [of "example_deref example_call"] r by blast
  then have g: "getRefDecl (example_deref example_call) = Inl (TransAssertFailure ''Bad UnaryOperator!'')"
    by (simp add: example_deref_def example_call_def getRefDecl.simps
        ignoreSubscriptExprParenCasts_def subscript_loop.simps)
  have p: "isPointerType (getType (example_deref example_call))"
    by (simp add: example_deref_def example_call_def)
  have n: "\<not> safe_rhs (CastExpr (PointerType BuiltinType) (IntegerLiteral BuiltinType 0))"
      "\<not> safe_rhs (IntegerLiteral BuiltinType 0)"
    by (simp_all add: safe_rhs_def)
  have safe: "safe_rhs (CastExpr (PointerType BuiltinType) (example_ref example_q))"
    by (simp add: safe_rhs_def example_defs)
  have skip: "VisitBinaryOperator BO_Assign (example_deref example_call)
      (CastExpr (PointerType BuiltinType) (example_ref example_q)) (initial_state 1 False)
      = Inr (initial_state 1 False)"
    using lhs_resolution_partial [of _ _ BO_Assign "example_deref example_call"
        "CastExpr (PointerType BuiltinType) (example_ref example_q)" "initial_state 1 False"] safe
    by blast
  have ok: "getRefDecl (example_deref (example_ref example_p)) = Inr 1"
    by (simp add: example_deref_def example_defs getRefDecl.simps
        ignoreSubscriptExprParenCasts_def subscript_loop.simps)
  have ok_shape: "resolvable_lhs (example_deref (example_ref example_p))"
    using lhs_resolution_partial [of "example_deref (example_ref example_p)" 1] ok by blast
  have "\<exists>msg. TraverseStmt
       (BinaryOperator (getType (example_deref example_call)) BO_Assign (example_deref example_call)
          (CastExpr (PointerType BuiltinType) (IntegerLiteral BuiltinType 0)))
       (initial_state 1 False) = Inl (TransAssertFailure msg)"
    using lhs_resolution_partial [of _ _ BO_Assign "example_deref example_call"
        "CastExpr (PointerType BuiltinType) (IntegerLiteral BuiltinType 0)"
        "initial_state 1 False" "getType (example_deref example_call)"] r p n
    by auto
  then show ?thesis
    using r g p n safe skip ok ok_shape by (simp add: example_assign_def)
qed

end
